theory Spec2Isabelle
  imports Main "HOL-Library.Word" "HOL-Library.Multiset"
begin

section \<open>Data model (task.h, scheduler.h, mutex.h, semaphore.h)\<close>

text \<open>
  Pointers are handles: a \<open>TaskControlBlock *\<close> is the index of the task in the
  scheduler's \<open>all_tasks\<close> array, a \<open>Mutex *\<close> or \<open>Semaphore *\<close> is the index of
  the object in an arena of the objects allocated so far. A nullable pointer is an
  \<open>option\<close>. The C \<open>int\<close> priority is an \<open>int\<close> (the code only assigns and compares
  it), the \<open>uint64_t\<close> and \<open>uint32_t\<close> fields are machine words. Names, stacks,
  function pointers, the unused \<open>next\<close>/\<open>prev\<close> links and the timeline (an append-only
  log that no operation reads back) are left out; \<open>calloc\<close> is taken to succeed.
\<close>

datatype TaskState = TASK_READY | TASK_RUNNING | TASK_BLOCKED | TASK_SUSPENDED | TASK_TERMINATED

datatype SchedPolicy = SCHED_PRIORITY | SCHED_RATE_MONOTONIC

record TaskControlBlock =
  state :: TaskState
  priority :: int
  original_priority :: int
  priority_inherited :: bool
  period :: "64 word"
  relative_deadline :: "64 word"
  next_release :: "64 word"
  absolute_deadline :: "64 word"
  exec_time :: "64 word"
  wcet_observed :: "64 word"
  total_exec_time :: "64 word"
  invocations :: "32 word"
  deadline_misses :: "32 word"
  preemptions :: "32 word"
  priority_boosts :: "32 word"
  held_mutexes :: "nat list"
  blocked_on :: "nat option"
  remaining_work :: "64 word"
  ready_since :: "64 word"

record Mutex =
  locked :: bool
  owner :: "nat option"
  wait_queue :: "nat list"

record Semaphore =
  sem_count :: int
  max_count :: int
  sem_wait_queue :: "nat list"

record Scheduler =
  policy :: SchedPolicy
  priority_inheritance_enabled :: bool
  current_task :: "nat option"
  idle_task :: "nat option"
  ready_queue :: "nat list"
  all_tasks :: "TaskControlBlock list"
  system_ticks :: "64 word"
  context_switches :: "64 word"
  next_id :: int
  mutexes :: "Mutex list"
  semaphores :: "Semaphore list"

definition MAX_READY_TASKS :: nat where "MAX_READY_TASKS = 64"
definition MAX_ALL_TASKS :: nat where "MAX_ALL_TASKS = 64"
definition MUTEX_WAIT_QUEUE_CAP :: nat where "MUTEX_WAIT_QUEUE_CAP = 16"
definition SEM_WAIT_QUEUE_CAP :: nat where "SEM_WAIT_QUEUE_CAP = 16"
definition PRIORITY_IDLE :: int where "PRIORITY_IDLE = 255"
definition UINT64_MAX :: "64 word" where "UINT64_MAX = - 1"

text \<open>Reading and writing one task through its handle.\<close>

definition task_at :: "Scheduler \<Rightarrow> nat \<Rightarrow> TaskControlBlock" where
  "task_at s t = all_tasks s ! t"

definition task_priority :: "Scheduler \<Rightarrow> nat \<Rightarrow> int" where
  "task_priority s t = priority (all_tasks s ! t)"

definition task_state :: "Scheduler \<Rightarrow> nat \<Rightarrow> TaskState" where
  "task_state s t = state (all_tasks s ! t)"

definition upd_task :: "Scheduler \<Rightarrow> nat \<Rightarrow> (TaskControlBlock \<Rightarrow> TaskControlBlock) \<Rightarrow> Scheduler" where
  "upd_task s t f = s\<lparr>all_tasks := (all_tasks s)[t := f (all_tasks s ! t)]\<rparr>"

definition upd_mutex :: "Scheduler \<Rightarrow> nat \<Rightarrow> (Mutex \<Rightarrow> Mutex) \<Rightarrow> Scheduler" where
  "upd_mutex s m f = s\<lparr>mutexes := (mutexes s)[m := f (mutexes s ! m)]\<rparr>"

section \<open>Ready queue (scheduler.c)\<close>

text \<open>
  The scan-and-shift loop shared by \<open>ready_queue_insert\<close>, \<open>wait_queue_insert\<close> and
  \<open>sem_wait_queue_insert\<close>: the new entry goes before the first entry whose priority
  number is strictly greater, at the end when there is none.
\<close>

fun insert_by_priority :: "(nat \<Rightarrow> int) \<Rightarrow> nat \<Rightarrow> nat list \<Rightarrow> nat list" where
  "insert_by_priority pr t [] = [t]"
| "insert_by_priority pr t (x # xs) =
     (if pr t < pr x then t # x # xs else x # insert_by_priority pr t xs)"

definition ready_queue_insert :: "Scheduler \<Rightarrow> nat \<Rightarrow> Scheduler" where
  "ready_queue_insert s t =
     (if length (ready_queue s) \<ge> MAX_READY_TASKS then s
      else s\<lparr>ready_queue := insert_by_priority (task_priority s) t (ready_queue s)\<rparr>)"

definition ready_queue_remove :: "Scheduler \<Rightarrow> nat \<Rightarrow> Scheduler" where
  "ready_queue_remove s t = s\<lparr>ready_queue := remove1 t (ready_queue s)\<rparr>"

definition ready_queue_peek :: "Scheduler \<Rightarrow> nat option" where
  "ready_queue_peek s = (case ready_queue s of [] \<Rightarrow> None | t # _ \<Rightarrow> Some t)"

definition ready_queue_pop :: "Scheduler \<Rightarrow> nat option \<times> Scheduler" where
  "ready_queue_pop s =
     (case ready_queue s of [] \<Rightarrow> (None, s) | t # rest \<Rightarrow> (Some t, s\<lparr>ready_queue := rest\<rparr>))"

section \<open>Priority inheritance (mutex.c)\<close>

text \<open>
  The block "re-sort if in ready queue" that \<open>priority_inherit\<close>,
  \<open>priority_restore\<close> and \<open>task_set_priority\<close> run after they have changed a priority.
\<close>

definition resort_ready :: "Scheduler \<Rightarrow> nat \<Rightarrow> Scheduler" where
  "resort_ready s t =
     (if task_state s t = TASK_READY
      then ready_queue_insert (ready_queue_remove s t) t else s)"

text \<open>
  The body of \<open>priority_inherit\<close> up to its recursive call: snapshot the original
  priority on the first boost, take the new priority, count the boost, re-sort.
\<close>

definition inherit_step :: "Scheduler \<Rightarrow> nat \<Rightarrow> int \<Rightarrow> Scheduler" where
  "inherit_step s t new_priority =
     resort_ready
       (upd_task s t (\<lambda>tk.
          (if \<not> priority_inherited tk
           then tk\<lparr>original_priority := priority tk, priority_inherited := True\<rparr>
           else tk)
          \<lparr>priority := new_priority, priority_boosts := priority_boosts tk + 1\<rparr>)) t"

text \<open>\<open>task->blocked_on->owner\<close>, when both pointers are set.\<close>

definition blocking_owner :: "Scheduler \<Rightarrow> nat \<Rightarrow> nat option" where
  "blocking_owner s t =
     (case blocked_on (all_tasks s ! t) of
        None \<Rightarrow> None
      | Some m \<Rightarrow> (if m < length (mutexes s) then owner (mutexes s ! m) else None))"

text \<open>
  \<open>priority_inherit\<close> recurses along \<open>blocked_on\<close> and \<open>owner\<close>. Every call that does
  not return at once lowers the priority number of one more task to \<open>new_priority\<close>,
  so the number of tasks above \<open>new_priority\<close> is a measure.
\<close>

function priority_inherit :: "Scheduler \<Rightarrow> nat \<Rightarrow> int \<Rightarrow> Scheduler" where
  "priority_inherit s t new_priority =
     (if t \<ge> length (all_tasks s) then s
      else if new_priority \<ge> priority (all_tasks s ! t) then s
      else
        let s1 = inherit_step s t new_priority
        in case blocking_owner s1 t of
             None \<Rightarrow> s1
           | Some ow \<Rightarrow> priority_inherit s1 ow new_priority)"
  by pat_completeness auto

lemma all_tasks_ready_queue_insert [simp]:
  "all_tasks (ready_queue_insert s t) = all_tasks s"
  by (simp add: ready_queue_insert_def)

lemma all_tasks_ready_queue_remove [simp]:
  "all_tasks (ready_queue_remove s t) = all_tasks s"
  by (simp add: ready_queue_remove_def)

lemma all_tasks_resort_ready [simp]:
  "all_tasks (resort_ready s t) = all_tasks s"
  by (simp add: resort_ready_def)

lemma all_tasks_upd_task:
  "all_tasks (upd_task s t f) = (all_tasks s)[t := f (all_tasks s ! t)]"
  by (simp add: upd_task_def)

lemma length_all_tasks_upd_task [simp]:
  "length (all_tasks (upd_task s t f)) = length (all_tasks s)"
  by (simp add: upd_task_def)

lemma nth_all_tasks_upd_task [simp]:
  "all_tasks (upd_task s t f) ! u =
     (if u = t \<and> t < length (all_tasks s) then f (all_tasks s ! t) else all_tasks s ! u)"
  by (cases "t < length (all_tasks s)") (simp_all add: upd_task_def list_update_beyond)

lemma filter_update_less:
  assumes "i < length xs" "P (xs ! i)" "\<not> P y"
  shows "length (filter P (xs[i := y])) < length (filter P xs)"
  using assms
proof (induction xs arbitrary: i)
  case Nil
  then show ?case by simp
next
  case (Cons x xs)
  show ?case
  proof (cases i)
    case 0
    with Cons.prems show ?thesis by (simp add: le_imp_less_Suc)
  next
    case (Suc j)
    with Cons.prems Cons.IH [of j] show ?thesis by simp
  qed
qed

lemma inherit_step_measure:
  assumes "t < length (all_tasks s)" "p < priority (all_tasks s ! t)"
  shows "length (filter (\<lambda>tk. p < priority tk) (all_tasks (inherit_step s t p)))
         < length (filter (\<lambda>tk. p < priority tk) (all_tasks s))"
  using assms by (simp add: inherit_step_def all_tasks_upd_task filter_update_less)

termination priority_inherit
proof (relation "measure (\<lambda>(s, t, p). length (filter (\<lambda>tk. p < priority tk) (all_tasks s)))", goal_cases)
  case 1
  show ?case by simp
next
  case (2 s t p s1 ow)
  then show ?case by (simp add: inherit_step_measure)
qed

declare priority_inherit.simps [simp del]


text \<open>
  \<open>priority_restore\<close>: the priority still needed is the lowest number among the
  original priority and the priorities of the waiters of the mutexes still held.
\<close>

definition needed_over_waiters :: "Scheduler \<Rightarrow> nat list \<Rightarrow> int \<Rightarrow> int" where
  "needed_over_waiters s ws needed =
     fold (\<lambda>w nd. if task_priority s w < nd then task_priority s w else nd) ws needed"

definition needed_step :: "Scheduler \<Rightarrow> nat \<Rightarrow> int \<Rightarrow> int" where
  "needed_step s m needed =
     (if m < length (mutexes s)
      then needed_over_waiters s (wait_queue (mutexes s ! m)) needed else needed)"

definition needed_priority :: "Scheduler \<Rightarrow> nat \<Rightarrow> int" where
  "needed_priority s t =
     fold (needed_step s) (held_mutexes (all_tasks s ! t))
          (original_priority (all_tasks s ! t))"

text \<open>The priorities of the waiters of the mutexes in a held set.\<close>

definition waiter_priorities :: "Scheduler \<Rightarrow> nat list \<Rightarrow> int set" where
  "waiter_priorities s held =
     set [task_priority s w. m \<leftarrow> held, m < length (mutexes s),
                             w \<leftarrow> wait_queue (mutexes s ! m)]"

definition priority_restore :: "Scheduler \<Rightarrow> nat \<Rightarrow> Scheduler" where
  "priority_restore s t =
     (if t \<ge> length (all_tasks s) \<or> \<not> priority_inherited (all_tasks s ! t) then s
      else
        let needed = needed_priority s t;
            s1 = upd_task s t (\<lambda>tk. tk\<lparr>priority := needed\<rparr>);
            s2 = upd_task s1 t (\<lambda>tk. if priority tk = original_priority tk
                                      then tk\<lparr>priority_inherited := False\<rparr> else tk)
        in resort_ready s2 t)"

section \<open>Task management (task.c)\<close>

text \<open>
  \<open>task_create\<close> returns the new handle, which is the old \<open>task_count\<close>, or NULL when
  the registry is full; the model returns the state. \<open>(int)period\<close> keeps the low 32
  bits of the period, read as two's complement.
\<close>

definition task_create ::
  "Scheduler \<Rightarrow> int \<Rightarrow> 64 word \<Rightarrow> 64 word \<Rightarrow> 64 word \<Rightarrow> Scheduler" where
  "task_create s prio per deadline wcet =
     (if length (all_tasks s) \<ge> MAX_ALL_TASKS then s
      else
        let p = (if policy s = SCHED_RATE_MONOTONIC \<and> per > 0
                 then sint (ucast per :: 32 word) else prio);
            tk = \<lparr>state = TASK_READY, priority = p, original_priority = p,
                  priority_inherited = False, period = per,
                  relative_deadline = (if deadline > 0 then deadline else per),
                  next_release = system_ticks s + per,
                  absolute_deadline = system_ticks s + (if deadline > 0 then deadline else per),
                  exec_time = 0, wcet_observed = 0, total_exec_time = 0,
                  invocations = 1, deadline_misses = 0, preemptions = 0, priority_boosts = 0,
                  held_mutexes = [], blocked_on = None,
                  remaining_work = wcet, ready_since = system_ticks s\<rparr>;
            s1 = s\<lparr>next_id := next_id s + 1, all_tasks := all_tasks s @ [tk]\<rparr>
        in ready_queue_insert s1 (length (all_tasks s)))"

definition task_set_state :: "Scheduler \<Rightarrow> nat \<Rightarrow> TaskState \<Rightarrow> Scheduler" where
  "task_set_state s t new_state =
     (if t \<ge> length (all_tasks s) then s
      else
        let old = state (all_tasks s ! t) in
        if old = new_state then s
        else
          let s1 = upd_task s t (\<lambda>tk. tk\<lparr>state := new_state\<rparr>);
              s2 = (if old = TASK_READY \<and> new_state \<noteq> TASK_READY
                    then ready_queue_remove s1 t else s1)
          in if new_state = TASK_READY \<and> old \<noteq> TASK_READY
             then ready_queue_insert
                    (upd_task s2 t (\<lambda>tk. tk\<lparr>ready_since := system_ticks s\<rparr>)) t
             else s2)"

definition task_suspend :: "Scheduler \<Rightarrow> nat \<Rightarrow> Scheduler" where
  "task_suspend s t =
     (if t \<ge> length (all_tasks s) \<or> state (all_tasks s ! t) = TASK_TERMINATED then s
      else task_set_state s t TASK_SUSPENDED)"

definition task_resume :: "Scheduler \<Rightarrow> nat \<Rightarrow> Scheduler" where
  "task_resume s t =
     (if t \<ge> length (all_tasks s) \<or> state (all_tasks s ! t) \<noteq> TASK_SUSPENDED then s
      else task_set_state s t TASK_READY)"

definition task_terminate :: "Scheduler \<Rightarrow> nat \<Rightarrow> Scheduler" where
  "task_terminate s t = task_set_state s t TASK_TERMINATED"

definition task_set_priority :: "Scheduler \<Rightarrow> nat \<Rightarrow> int \<Rightarrow> Scheduler" where
  "task_set_priority s t new_priority =
     (if t \<ge> length (all_tasks s) then s
      else resort_ready (upd_task s t (\<lambda>tk. tk\<lparr>priority := new_priority\<rparr>)) t)"

definition task_add_held_mutex :: "Scheduler \<Rightarrow> nat \<Rightarrow> nat \<Rightarrow> Scheduler" where
  "task_add_held_mutex s t m =
     (if t \<ge> length (all_tasks s) then s
      else upd_task s t (\<lambda>tk. tk\<lparr>held_mutexes := held_mutexes tk @ [m]\<rparr>))"

definition task_remove_held_mutex :: "Scheduler \<Rightarrow> nat \<Rightarrow> nat \<Rightarrow> Scheduler" where
  "task_remove_held_mutex s t m =
     (if t \<ge> length (all_tasks s) then s
      else upd_task s t (\<lambda>tk. tk\<lparr>held_mutexes := remove1 m (held_mutexes tk)\<rparr>))"

section \<open>Scheduler core (scheduler.c)\<close>

text \<open>
  \<open>scheduler_init\<close> zeroes the structure and creates the idle task, which gets slot 0
  of \<open>all_tasks\<close>; it is taken out of the ready queue again and keeps the state
  \<open>TASK_READY\<close> that \<open>task_create\<close> gave it.
\<close>

definition scheduler_init :: "SchedPolicy \<Rightarrow> bool \<Rightarrow> Scheduler" where
  "scheduler_init pol pi =
     (let s0 = \<lparr>policy = pol, priority_inheritance_enabled = pi,
                 current_task = None, idle_task = None, ready_queue = [], all_tasks = [],
                 system_ticks = 0, context_switches = 0, next_id = 0,
                 mutexes = [], semaphores = []\<rparr>;
          s1 = task_create s0 PRIORITY_IDLE 0 0 0;
          s2 = s1\<lparr>idle_task := Some 0\<rparr>;
          s3 = ready_queue_remove s2 0
      in upd_task s3 0 (\<lambda>tk. tk\<lparr>remaining_work := UINT64_MAX\<rparr>))"

definition scheduler_get_next_task :: "Scheduler \<Rightarrow> nat option" where
  "scheduler_get_next_task s =
     (case ready_queue_peek s of Some t \<Rightarrow> Some t | None \<Rightarrow> idle_task s)"

definition scheduler_context_switch ::
  "Scheduler \<Rightarrow> nat option \<Rightarrow> nat option \<Rightarrow> Scheduler" where
  "scheduler_context_switch s from to =
     (case to of
        None \<Rightarrow> s
      | Some n \<Rightarrow>
          if from = Some n then s
          else
            let s1 = (case from of
                        None \<Rightarrow> s
                      | Some c \<Rightarrow>
                          if task_state s c = TASK_RUNNING
                          then upd_task
                                 (ready_queue_insert
                                    (upd_task s c (\<lambda>tk. tk\<lparr>state := TASK_READY,
                                                           ready_since := system_ticks s\<rparr>)) c)
                                 c (\<lambda>tk. tk\<lparr>preemptions := preemptions tk + 1\<rparr>)
                          else s);
                s2 = ready_queue_remove s1 n;
                s3 = upd_task s2 n (\<lambda>tk. tk\<lparr>state := TASK_RUNNING\<rparr>)
            in s3\<lparr>current_task := Some n, context_switches := context_switches s3 + 1\<rparr>)"

text \<open>
  \<open>scheduler_schedule\<close>. With a running current task and neither a ready task nor an
  idle task the C code reads \<open>next->priority\<close> through a null pointer; that state
  needs a failed \<open>scheduler_init\<close>, and the model leaves the state as it is there.
\<close>

definition scheduler_schedule :: "Scheduler \<Rightarrow> Scheduler" where
  "scheduler_schedule s =
     (let next = scheduler_get_next_task s; curr = current_task s in
      if next = curr then s
      else
        case curr of
          None \<Rightarrow> scheduler_context_switch s curr next
        | Some c \<Rightarrow>
            if task_state s c = TASK_RUNNING
            then (case next of
                    None \<Rightarrow> s
                  | Some n \<Rightarrow>
                      if task_priority s n \<ge> task_priority s c then s
                      else scheduler_context_switch s curr next)
            else scheduler_context_switch s curr next)"

definition scheduler_needs_preemption :: "Scheduler \<Rightarrow> bool" where
  "scheduler_needs_preemption s =
     (case current_task s of
        None \<Rightarrow> True
      | Some c \<Rightarrow>
          (case ready_queue_peek s of
             None \<Rightarrow> False
           | Some n \<Rightarrow> task_priority s n < task_priority s c))"

subsection \<open>Rate-monotonic priorities\<close>

definition cmp_period :: "TaskControlBlock \<Rightarrow> TaskControlBlock \<Rightarrow> int" where
  "cmp_period ta tb =
     (if period ta = 0 \<and> period tb = 0 then 0
      else if period ta = 0 then 1
      else if period tb = 0 then - 1
      else if period ta < period tb then - 1
      else if period ta > period tb then 1
      else 0)"

text \<open>
  The C library's \<open>qsort\<close> is a parameter: it may order entries that compare equal in
  any way. \<open>insort_by\<close> is one instance, used to run examples.
\<close>

fun insort_by :: "('a \<Rightarrow> 'a \<Rightarrow> int) \<Rightarrow> 'a list \<Rightarrow> 'a list" where
  "insort_by cmp [] = []"
| "insort_by cmp (x # xs) =
     (let ys = insort_by cmp xs
      in takeWhile (\<lambda>y. cmp y x \<le> 0) ys @ x # dropWhile (\<lambda>y. cmp y x \<le> 0) ys)"

definition periodic_tasks :: "Scheduler \<Rightarrow> nat list" where
  "periodic_tasks s =
     filter (\<lambda>i. period (all_tasks s ! i) > 0 \<and> state (all_tasks s ! i) \<noteq> TASK_TERMINATED
                 \<and> Some i \<noteq> idle_task s)
            [0..<length (all_tasks s)]"

fun assign_ranks :: "Scheduler \<Rightarrow> nat \<Rightarrow> nat list \<Rightarrow> Scheduler" where
  "assign_ranks s i [] = s"
| "assign_ranks s i (t # ts) =
     assign_ranks (upd_task s t (\<lambda>tk. tk\<lparr>priority := int i, original_priority := int i\<rparr>))
                  (Suc i) ts"

definition rebuild_step :: "Scheduler \<Rightarrow> nat \<Rightarrow> Scheduler" where
  "rebuild_step s i =
     (if state (all_tasks s ! i) = TASK_READY \<and> Some i \<noteq> idle_task s
      then ready_queue_insert s i else s)"

definition rebuild_ready_queue :: "Scheduler \<Rightarrow> Scheduler" where
  "rebuild_ready_queue s =
     fold (\<lambda>i s'. rebuild_step s' i) [0..<length (all_tasks s)] (s\<lparr>ready_queue := []\<rparr>)"

definition rms_recalculate_priorities ::
  "((nat \<Rightarrow> nat \<Rightarrow> int) \<Rightarrow> nat list \<Rightarrow> nat list) \<Rightarrow> Scheduler \<Rightarrow> Scheduler" where
  "rms_recalculate_priorities qsort s =
     (let periodic = qsort (\<lambda>a b. cmp_period (all_tasks s ! a) (all_tasks s ! b))
                           (periodic_tasks s)
      in rebuild_ready_queue (assign_ranks s 0 periodic))"

section \<open>Mutex (mutex.c)\<close>

definition wait_queue_insert :: "Scheduler \<Rightarrow> nat \<Rightarrow> nat \<Rightarrow> Scheduler" where
  "wait_queue_insert s m t =
     (if length (wait_queue (mutexes s ! m)) \<ge> MUTEX_WAIT_QUEUE_CAP then s
      else upd_mutex s m (\<lambda>mx. mx\<lparr>wait_queue :=
             insert_by_priority (task_priority s) t (wait_queue mx)\<rparr>))"

definition mutex_create :: "Scheduler \<Rightarrow> Scheduler" where
  "mutex_create s =
     s\<lparr>mutexes := mutexes s @ [\<lparr>locked = False, owner = None, wait_queue = []\<rparr>]\<rparr>"

text \<open>
  \<open>mutex_lock\<close>. A locked mutex without owner does not arise from the operations; the
  C code would read \<open>mtx->owner->priority\<close> there, the model skips the boost.
\<close>

definition mutex_lock :: "Scheduler \<Rightarrow> nat \<Rightarrow> nat \<Rightarrow> Scheduler" where
  "mutex_lock s m t =
     (if m \<ge> length (mutexes s) \<or> t \<ge> length (all_tasks s) then s
      else if \<not> locked (mutexes s ! m)
      then task_add_held_mutex
             (upd_mutex s m (\<lambda>mx. mx\<lparr>locked := True, owner := Some t\<rparr>)) t m
      else
        let s1 = (if priority_inheritance_enabled s
                  then (case owner (mutexes s ! m) of
                          None \<Rightarrow> s
                        | Some ow \<Rightarrow>
                            if task_priority s t < task_priority s ow
                            then priority_inherit s ow (task_priority s t) else s)
                  else s);
            s2 = upd_task s1 t (\<lambda>tk. tk\<lparr>blocked_on := Some m\<rparr>);
            s3 = task_set_state s2 t TASK_BLOCKED;
            s4 = wait_queue_insert s3 m t
        in scheduler_schedule s4)"

definition mutex_unlock :: "Scheduler \<Rightarrow> nat \<Rightarrow> nat \<Rightarrow> Scheduler" where
  "mutex_unlock s m t =
     (if m \<ge> length (mutexes s) \<or> t \<ge> length (all_tasks s) then s
      else if owner (mutexes s ! m) \<noteq> Some t then s
      else
        let s1 = task_remove_held_mutex s t m;
            s2 = (if priority_inheritance_enabled s1 then priority_restore s1 t else s1);
            s3 = (case wait_queue (mutexes s2 ! m) of
                    [] \<Rightarrow> upd_mutex s2 m (\<lambda>mx. mx\<lparr>locked := False, owner := None\<rparr>)
                  | waiter # rest \<Rightarrow>
                      let a = upd_mutex s2 m (\<lambda>mx. mx\<lparr>wait_queue := rest\<rparr>);
                          b = upd_task a waiter (\<lambda>tk. tk\<lparr>blocked_on := None\<rparr>);
                          c = upd_mutex b m (\<lambda>mx. mx\<lparr>owner := Some waiter\<rparr>);
                          d = task_add_held_mutex c waiter m
                      in task_set_state d waiter TASK_READY)
        in scheduler_schedule s3)"

section \<open>Counting semaphore (semaphore.c)\<close>

definition upd_sem :: "Scheduler \<Rightarrow> nat \<Rightarrow> (Semaphore \<Rightarrow> Semaphore) \<Rightarrow> Scheduler" where
  "upd_sem s i f = s\<lparr>semaphores := (semaphores s)[i := f (semaphores s ! i)]\<rparr>"

definition sem_wait_queue_insert :: "Scheduler \<Rightarrow> nat \<Rightarrow> nat \<Rightarrow> Scheduler" where
  "sem_wait_queue_insert s i t =
     (if length (sem_wait_queue (semaphores s ! i)) \<ge> SEM_WAIT_QUEUE_CAP then s
      else upd_sem s i (\<lambda>sm. sm\<lparr>sem_wait_queue :=
             insert_by_priority (task_priority s) t (sem_wait_queue sm)\<rparr>))"

definition semaphore_create :: "Scheduler \<Rightarrow> int \<Rightarrow> int \<Rightarrow> Scheduler" where
  "semaphore_create s initial maxc =
     s\<lparr>semaphores := semaphores s @
          [\<lparr>sem_count = initial, max_count = maxc, sem_wait_queue = []\<rparr>]\<rparr>"

definition semaphore_wait :: "Scheduler \<Rightarrow> nat \<Rightarrow> nat \<Rightarrow> Scheduler" where
  "semaphore_wait s i t =
     (if i \<ge> length (semaphores s) \<or> t \<ge> length (all_tasks s) then s
      else if sem_count (semaphores s ! i) > 0
      then upd_sem s i (\<lambda>sm. sm\<lparr>sem_count := sem_count sm - 1\<rparr>)
      else scheduler_schedule
             (sem_wait_queue_insert (task_set_state s t TASK_BLOCKED) i t))"

definition semaphore_signal :: "Scheduler \<Rightarrow> nat \<Rightarrow> Scheduler" where
  "semaphore_signal s i =
     (if i \<ge> length (semaphores s) then s
      else
        case sem_wait_queue (semaphores s ! i) of
          waiter # rest \<Rightarrow>
            scheduler_schedule
              (task_set_state (upd_sem s i (\<lambda>sm. sm\<lparr>sem_wait_queue := rest\<rparr>))
                              waiter TASK_READY)
        | [] \<Rightarrow>
            if sem_count (semaphores s ! i) < max_count (semaphores s ! i)
            then upd_sem s i (\<lambda>sm. sm\<lparr>sem_count := sem_count sm + 1\<rparr>)
            else s)"

section \<open>Time (rtos\_time.c)\<close>

definition release_task :: "Scheduler \<Rightarrow> nat \<Rightarrow> Scheduler" where
  "release_task s i =
     (let t = all_tasks s ! i in
      if Some i = idle_task s then s
      else if period t = 0 then s
      else if state t = TASK_SUSPENDED \<and> system_ticks s \<ge> next_release t
              \<and> (system_ticks s - next_release t) mod period t = 0
              \<and> system_ticks s = next_release t
      then task_set_state
             (upd_task s i (\<lambda>tk. tk\<lparr>next_release := system_ticks s + period tk,
                                     absolute_deadline := system_ticks s + relative_deadline tk,
                                     exec_time := 0,
                                     invocations := invocations tk + 1\<rparr>))
             i TASK_READY
      else s)"

definition check_periodic_releases :: "Scheduler \<Rightarrow> Scheduler" where
  "check_periodic_releases s = fold (\<lambda>i s'. release_task s' i) [0..<length (all_tasks s)] s"

text \<open>
  The body of the loop of \<open>check_deadlines\<close> for a task that is not the idle task; it
  reads and writes that task only, and reads \<open>system_ticks\<close>.
\<close>

definition deadline_check :: "64 word \<Rightarrow> TaskControlBlock \<Rightarrow> TaskControlBlock" where
  "deadline_check now t =
     (if period t = 0 \<and> relative_deadline t = 0 then t
      else if (state t = TASK_RUNNING \<or> state t = TASK_READY)
              \<and> absolute_deadline t > 0
              \<and> now > absolute_deadline t
              \<and> remaining_work t > 0
      then t\<lparr>deadline_misses := deadline_misses t + 1, absolute_deadline := UINT64_MAX\<rparr>
      else t)"

definition check_deadline_task :: "Scheduler \<Rightarrow> nat \<Rightarrow> Scheduler" where
  "check_deadline_task s i =
     (if Some i = idle_task s then s
      else upd_task s i (deadline_check (system_ticks s)))"

definition check_deadlines :: "Scheduler \<Rightarrow> Scheduler" where
  "check_deadlines s = fold (\<lambda>i s'. check_deadline_task s' i) [0..<length (all_tasks s)] s"

definition run_current :: "Scheduler \<Rightarrow> Scheduler" where
  "run_current s =
     (case current_task s of
        None \<Rightarrow> s
      | Some c \<Rightarrow>
          if task_state s c = TASK_RUNNING
          then upd_task s c (\<lambda>tk.
                 let tk1 = tk\<lparr>exec_time := exec_time tk + 1,
                              total_exec_time := total_exec_time tk + 1\<rparr>;
                     tk2 = (if remaining_work tk1 > 0
                            then tk1\<lparr>remaining_work := remaining_work tk1 - 1\<rparr> else tk1)
                 in if exec_time tk2 > wcet_observed tk2
                    then tk2\<lparr>wcet_observed := exec_time tk2\<rparr> else tk2)
          else s)"

definition tick_handler :: "Scheduler \<Rightarrow> Scheduler" where
  "tick_handler s =
     check_deadlines
       (check_periodic_releases
          (run_current (s\<lparr>system_ticks := system_ticks s + 1\<rparr>)))"

definition advance_time :: "Scheduler \<Rightarrow> 64 word \<Rightarrow> Scheduler" where
  "advance_time s ticks = ((\<lambda>s'. scheduler_schedule (tick_handler s')) ^^ unat ticks) s"

fun simulate_loop :: "nat \<Rightarrow> Scheduler \<Rightarrow> nat \<Rightarrow> Scheduler" where
  "simulate_loop 0 s t = s"
| "simulate_loop (Suc k) s t =
     (if current_task s \<noteq> Some t then s
      else
        let s1 = tick_handler s in
        if scheduler_needs_preemption s1 then scheduler_schedule s1
        else simulate_loop k s1 t)"

definition simulate_work :: "Scheduler \<Rightarrow> nat \<Rightarrow> 64 word \<Rightarrow> Scheduler" where
  "simulate_work s t work_ticks =
     (if t \<ge> length (all_tasks s) then s
      else simulate_loop (unat work_ticks)
             (upd_task s t (\<lambda>tk. tk\<lparr>remaining_work := work_ticks\<rparr>)) t)"

section \<open>Drivers: sequences of calls of the public operations\<close>

datatype api_call =
    TaskCreate int "64 word" "64 word" "64 word"
  | TaskSetState nat TaskState
  | TaskSuspend nat
  | TaskResume nat
  | TaskTerminate nat
  | TaskSetPriority nat int
  | MutexCreate
  | MutexLock nat nat
  | MutexUnlock nat nat
  | PriorityInherit nat int
  | PriorityRestore nat
  | SemaphoreCreate int int
  | SemaphoreWait nat nat
  | SemaphoreSignal nat
  | Schedule
  | TickHandler
  | AdvanceTime "64 word"
  | SimulateWork nat "64 word"
  | RmsRecalculate

fun exec ::
  "((nat \<Rightarrow> nat \<Rightarrow> int) \<Rightarrow> nat list \<Rightarrow> nat list) \<Rightarrow> api_call \<Rightarrow> Scheduler \<Rightarrow> Scheduler" where
  "exec qs (TaskCreate p per dl w) s = task_create s p per dl w"
| "exec qs (TaskSetState t st) s = task_set_state s t st"
| "exec qs (TaskSuspend t) s = task_suspend s t"
| "exec qs (TaskResume t) s = task_resume s t"
| "exec qs (TaskTerminate t) s = task_terminate s t"
| "exec qs (TaskSetPriority t p) s = task_set_priority s t p"
| "exec qs MutexCreate s = mutex_create s"
| "exec qs (MutexLock m t) s = mutex_lock s m t"
| "exec qs (MutexUnlock m t) s = mutex_unlock s m t"
| "exec qs (PriorityInherit t p) s = priority_inherit s t p"
| "exec qs (PriorityRestore t) s = priority_restore s t"
| "exec qs (SemaphoreCreate a b) s = semaphore_create s a b"
| "exec qs (SemaphoreWait i t) s = semaphore_wait s i t"
| "exec qs (SemaphoreSignal i) s = semaphore_signal s i"
| "exec qs Schedule s = scheduler_schedule s"
| "exec qs TickHandler s = tick_handler s"
| "exec qs (AdvanceTime n) s = advance_time s n"
| "exec qs (SimulateWork t n) s = simulate_work s t n"
| "exec qs RmsRecalculate s = rms_recalculate_priorities qs s"

text \<open>
  The states a driver reaches from \<open>scheduler_init\<close> with calls that the predicate
  \<open>ok\<close> admits in the state they are made in.
\<close>

inductive reachable_by ::
  "((nat \<Rightarrow> nat \<Rightarrow> int) \<Rightarrow> nat list \<Rightarrow> nat list) \<Rightarrow> (Scheduler \<Rightarrow> api_call \<Rightarrow> bool)
     \<Rightarrow> Scheduler \<Rightarrow> bool"
  for qs ok where
    reach_init: "reachable_by qs ok (scheduler_init pol pi)"
  | reach_step: "reachable_by qs ok s \<Longrightarrow> ok s c \<Longrightarrow> reachable_by qs ok (exec qs c s)"

text \<open>A list of calls each of which \<open>ok\<close> admits in the state it is made in.\<close>

fun admits ::
  "(Scheduler \<Rightarrow> api_call \<Rightarrow> bool) \<Rightarrow> ((nat \<Rightarrow> nat \<Rightarrow> int) \<Rightarrow> nat list \<Rightarrow> nat list)
     \<Rightarrow> api_call list \<Rightarrow> Scheduler \<Rightarrow> bool" where
  "admits ok qs [] s = True"
| "admits ok qs (c # cs) s = (ok s c \<and> admits ok qs cs (exec qs c s))"

text \<open>The driver that may make every call.\<close>

definition any_call :: "Scheduler \<Rightarrow> api_call \<Rightarrow> bool" where
  "any_call s c = True"

text \<open>
  The driver that calls \<open>task_set_priority\<close> only with a priority number that is not
  above the task's original priority.
\<close>

definition set_priority_within :: "Scheduler \<Rightarrow> api_call \<Rightarrow> bool" where
  "set_priority_within s c =
     (case c of
        TaskSetPriority t p \<Rightarrow>
          t < length (all_tasks s) \<longrightarrow> p \<le> original_priority (all_tasks s ! t)
      | _ \<Rightarrow> True)"


section \<open>Invariants\<close>

text \<open>
  The ready queue is well formed: no task twice, only registered tasks in state
  Ready, ascending priority numbers; the current and the idle task are registered.
\<close>

definition sched_inv :: "Scheduler \<Rightarrow> bool" where
  "sched_inv s \<longleftrightarrow>
     distinct (ready_queue s) \<and>
     (\<forall>t \<in> set (ready_queue s). t < length (all_tasks s) \<and> task_state s t = TASK_READY) \<and>
     sorted (map (task_priority s) (ready_queue s)) \<and>
     (\<forall>c. current_task s = Some c \<longrightarrow> c < length (all_tasks s)) \<and>
     (\<forall>i. idle_task s = Some i \<longrightarrow> i < length (all_tasks s))"

text \<open>
  The driver that blocks tasks through contended \<open>mutex_lock\<close> only: it does not call
  \<open>semaphore_wait\<close> on a depleted semaphore, does not move a task into or out of
  Blocked with \<open>task_set_state\<close>, \<open>task_suspend\<close> or \<open>task_terminate\<close>, and calls
  \<open>mutex_lock\<close> for a task that is not Blocked and not the idle task, on a mutex whose
  wait queue has room.
\<close>

definition blocking_discipline :: "Scheduler \<Rightarrow> api_call \<Rightarrow> bool" where
  "blocking_discipline s c =
     (case c of
        TaskSetState t st \<Rightarrow>
          st \<noteq> TASK_BLOCKED \<and> (t < length (all_tasks s) \<longrightarrow> task_state s t \<noteq> TASK_BLOCKED)
      | TaskSuspend t \<Rightarrow> t < length (all_tasks s) \<longrightarrow> task_state s t \<noteq> TASK_BLOCKED
      | TaskTerminate t \<Rightarrow> t < length (all_tasks s) \<longrightarrow> task_state s t \<noteq> TASK_BLOCKED
      | MutexLock m t \<Rightarrow>
          m < length (mutexes s) \<and> t < length (all_tasks s) \<longrightarrow>
            task_state s t \<noteq> TASK_BLOCKED \<and> idle_task s \<noteq> Some t \<and>
            (locked (mutexes s ! m) \<longrightarrow>
               length (wait_queue (mutexes s ! m)) < MUTEX_WAIT_QUEUE_CAP)
      | SemaphoreWait i t \<Rightarrow>
          i < length (semaphores s) \<and> t < length (all_tasks s) \<longrightarrow>
            sem_count (semaphores s ! i) > 0
      | _ \<Rightarrow> True)"

text \<open>The same driver, which in addition never locks a mutex for its owner.\<close>

definition no_self_lock :: "Scheduler \<Rightarrow> api_call \<Rightarrow> bool" where
  "no_self_lock s c \<longleftrightarrow>
     blocking_discipline s c \<and>
     (case c of
        MutexLock m t \<Rightarrow> m < length (mutexes s) \<longrightarrow> owner (mutexes s ! m) \<noteq> Some t
      | _ \<Rightarrow> True)"

text \<open>
  Blocked tasks and wait queues agree. The invariant reads the state through the
  lists \<open>blk\<close> (is task \<open>t\<close> Blocked), \<open>bos\<close> (its \<open>blocked_on\<close>) and \<open>wqs\<close> (the wait
  queue of mutex \<open>m\<close>): no queue holds a task twice, a queued task is Blocked on that
  mutex, a Blocked task is in the queue of the mutex it is blocked on, and a task
  that is not Blocked has no \<open>blocked_on\<close>.
\<close>

definition is_blocked :: "TaskControlBlock \<Rightarrow> bool" where
  "is_blocked tk \<longleftrightarrow> state tk = TASK_BLOCKED"

definition queues_consistent :: "bool list \<Rightarrow> nat option list \<Rightarrow> nat list list \<Rightarrow> bool" where
  "queues_consistent blk bos wqs \<longleftrightarrow>
     (\<forall>m < length wqs. distinct (wqs ! m) \<and>
        (\<forall>t \<in> set (wqs ! m). t < length blk \<and> blk ! t \<and> bos ! t = Some m)) \<and>
     (\<forall>t < length blk.
        (blk ! t \<longrightarrow> (\<exists>m < length wqs. bos ! t = Some m \<and> t \<in> set (wqs ! m))) \<and>
        (\<not> blk ! t \<longrightarrow> bos ! t = None))"

definition blocking_inv :: "Scheduler \<Rightarrow> bool" where
  "blocking_inv s \<longleftrightarrow>
     queues_consistent (map is_blocked (all_tasks s)) (map blocked_on (all_tasks s))
                       (map wait_queue (mutexes s)) \<and>
     (\<forall>i. idle_task s = Some i \<longrightarrow>
          i < length (all_tasks s) \<and> \<not> is_blocked (all_tasks s ! i)) \<and>
     (\<forall>q \<in> set (map sem_wait_queue (semaphores s)). q = [])"

text \<open>
  Every owner of a mutex is a registered task that does not have that mutex as its
  \<open>blocked_on\<close>.
\<close>

definition owners_unblocked :: "nat option list \<Rightarrow> nat option list \<Rightarrow> bool" where
  "owners_unblocked bos owns \<longleftrightarrow>
     (\<forall>m < length owns. \<forall>t. owns ! m = Some t \<longrightarrow> t < length bos \<and> bos ! t \<noteq> Some m)"

definition owner_inv :: "Scheduler \<Rightarrow> bool" where
  "owner_inv s \<longleftrightarrow>
     owners_unblocked (map blocked_on (all_tasks s)) (map owner (mutexes s))"

text \<open>What the two invariants read of a state.\<close>

definition blocking_view ::
  "Scheduler \<Rightarrow> bool list \<times> nat option list \<times> nat list list \<times> nat option list
                \<times> nat option \<times> nat list list" where
  "blocking_view s =
     (map is_blocked (all_tasks s), map blocked_on (all_tasks s),
      map wait_queue (mutexes s), map owner (mutexes s), idle_task s,
      map sem_wait_queue (semaphores s))"

text \<open>No task has a priority number above its original priority.\<close>

definition prio_le :: "Scheduler \<Rightarrow> bool" where
  "prio_le s \<longleftrightarrow> (\<forall>tk \<in> set (all_tasks s). priority tk \<le> original_priority tk)"

text \<open>
  The priority fields of a task, and the views of a task that do not read the fields
  which the dispatcher and \<open>task_set_state\<close> write.
\<close>

definition prio_view :: "TaskControlBlock \<Rightarrow> int \<times> int \<times> bool" where
  "prio_view tk = (priority tk, original_priority tk, priority_inherited tk)"

definition ignores_sched :: "(TaskControlBlock \<Rightarrow> 'a) \<Rightarrow> bool" where
  "ignores_sched v \<longleftrightarrow>
     (\<forall>tk a. v (tk\<lparr>state := a\<rparr>) = v tk) \<and>
     (\<forall>tk a. v (tk\<lparr>ready_since := a\<rparr>) = v tk) \<and>
     (\<forall>tk a. v (tk\<lparr>preemptions := a\<rparr>) = v tk)"

section \<open>Example runs\<close>

text \<open>
  Two mutexes and a chain of holders: task 1 holds mutex 0, task 2 holds mutex 1 and
  is blocked on mutex 0 (priority inheritance enabled).
\<close>

definition chain_state :: Scheduler where
  "chain_state = fold (exec insort_by)
     [MutexCreate, MutexCreate, TaskCreate 20 0 0 30, Schedule, MutexLock 0 1,
      TaskCreate 15 0 0 20, Schedule, MutexLock 1 2, MutexLock 0 2]
     (scheduler_init SCHED_PRIORITY True)"

text \<open>
  Three tasks at tick 4: tasks 1 and 2 with deadline 4 (task 1 running), task 3
  created at tick 2 without period and without deadline.
\<close>

definition late_state :: Scheduler where
  "late_state = fold (exec insort_by)
     [TaskCreate 1 0 4 12, TaskCreate 2 0 4 6, Schedule, TickHandler, Schedule, TickHandler,
      TaskCreate 5 0 0 10, Schedule, TickHandler, Schedule, TickHandler, Schedule]
     (scheduler_init SCHED_PRIORITY False)"

text \<open>Three periodic tasks under the rate-monotonic policy, periods 10, 20 and 15.\<close>

definition rm_state :: Scheduler where
  "rm_state = fold (exec insort_by)
     [TaskCreate 0 10 0 3, TaskCreate 0 20 0 5, TaskCreate 0 15 0 4, Schedule]
     (scheduler_init SCHED_RATE_MONOTONIC False)"

text \<open>
  What the C standard asks of \<open>qsort\<close> on the array of periodic tasks: the result is a
  rearrangement of the array, in ascending order of the comparison function.
\<close>

definition qsort_contract ::
  "((nat \<Rightarrow> nat \<Rightarrow> int) \<Rightarrow> nat list \<Rightarrow> nat list) \<Rightarrow> Scheduler \<Rightarrow> bool" where
  "qsort_contract qsort s \<longleftrightarrow>
     (let cmp = (\<lambda>a b. cmp_period (all_tasks s ! a) (all_tasks s ! b));
          res = qsort cmp (periodic_tasks s)
      in mset res = mset (periodic_tasks s) \<and> sorted_wrt (\<lambda>a b. cmp a b \<le> 0) res)"

text \<open>A task created with priority 5 and then set to priority 9.\<close>

definition demoted_state :: Scheduler where
  "demoted_state = exec insort_by (TaskSetPriority 1 9)
     (exec insort_by (TaskCreate 5 0 0 1) (scheduler_init SCHED_PRIORITY False))"

text \<open>
  A task that waits on a semaphore without tokens: task 1 runs and calls
  \<open>semaphore_wait\<close> on semaphore 0, created with count 0.
\<close>

definition sem_blocked_state :: Scheduler where
  "sem_blocked_state = fold (exec insort_by)
     [SemaphoreCreate 0 1, TaskCreate 5 0 0 1, Schedule, SemaphoreWait 0 1]
     (scheduler_init SCHED_PRIORITY True)"

text \<open>Task 1 runs, locks mutex 0 and locks it again.\<close>

definition self_locked_state :: Scheduler where
  "self_locked_state = fold (exec insort_by)
     [MutexCreate, TaskCreate 5 0 0 1, Schedule, MutexLock 0 1, MutexLock 0 1]
     (scheduler_init SCHED_PRIORITY True)"

text \<open>
  The chain of \<open>chain_state\<close>, closed: task 1, which holds mutex 0 and runs again
  after task 2 has blocked on it, locks mutex 1, which task 2 holds.
\<close>

definition deadlock_state :: Scheduler where
  "deadlock_state = exec insort_by (MutexLock 1 1) chain_state"

text \<open>
  Two mutexes and four tasks, each call made by the running task. Task 1 holds
  mutex 0; task 2 (priority 12) holds mutex 1 and blocks on mutex 0; task 3
  (priority 10) blocks on mutex 0; task 4 (priority 1) blocks on mutex 1, which
  boosts its owner, task 2, while task 2 waits for mutex 0.
\<close>

definition stale_queue_state :: Scheduler where
  "stale_queue_state = fold (exec insort_by)
     [MutexCreate, MutexCreate, TaskCreate 20 0 0 30, Schedule, MutexLock 0 1,
      TaskCreate 12 0 0 20, Schedule, MutexLock 1 2, MutexLock 0 2,
      TaskCreate 10 0 0 10, Schedule, MutexLock 0 3,
      TaskCreate 1 0 0 5, Schedule, MutexLock 1 4]
     (scheduler_init SCHED_PRIORITY True)"

text \<open>
  Two tasks of priority 5, both Ready: task 2 since tick 0, task 1, suspended and
  resumed, since tick 1.
\<close>

definition tie_state :: Scheduler where
  "tie_state = fold (exec insort_by)
     [TaskCreate 5 0 0 1, TaskCreate 5 0 0 1, TaskSuspend 1, TickHandler, TaskResume 1]
     (scheduler_init SCHED_PRIORITY False)"

text \<open>Task 1 runs, and semaphore 0 has no token.\<close>

definition token_less_state :: Scheduler where
  "token_less_state = fold (exec insort_by)
     [SemaphoreCreate 0 1, TaskCreate 5 0 0 1, Schedule]
     (scheduler_init SCHED_PRIORITY True)"

section \<open>Frame lemmas: what the queue helpers leave alone\<close>

lemma ready_queue_insert_frame [simp]:
  "policy (ready_queue_insert s t) = policy s"
  "priority_inheritance_enabled (ready_queue_insert s t) = priority_inheritance_enabled s"
  "current_task (ready_queue_insert s t) = current_task s"
  "idle_task (ready_queue_insert s t) = idle_task s"
  "system_ticks (ready_queue_insert s t) = system_ticks s"
  "context_switches (ready_queue_insert s t) = context_switches s"
  "mutexes (ready_queue_insert s t) = mutexes s"
  "semaphores (ready_queue_insert s t) = semaphores s"
  "task_priority (ready_queue_insert s t) = task_priority s"
  "task_state (ready_queue_insert s t) = task_state s"
  by (simp_all add: ready_queue_insert_def task_priority_def task_state_def fun_eq_iff)

lemma ready_queue_remove_frame [simp]:
  "policy (ready_queue_remove s t) = policy s"
  "priority_inheritance_enabled (ready_queue_remove s t) = priority_inheritance_enabled s"
  "current_task (ready_queue_remove s t) = current_task s"
  "idle_task (ready_queue_remove s t) = idle_task s"
  "system_ticks (ready_queue_remove s t) = system_ticks s"
  "context_switches (ready_queue_remove s t) = context_switches s"
  "mutexes (ready_queue_remove s t) = mutexes s"
  "semaphores (ready_queue_remove s t) = semaphores s"
  "task_priority (ready_queue_remove s t) = task_priority s"
  "task_state (ready_queue_remove s t) = task_state s"
  "ready_queue (ready_queue_remove s t) = remove1 t (ready_queue s)"
  by (simp_all add: ready_queue_remove_def task_priority_def task_state_def fun_eq_iff)

lemma resort_ready_frame [simp]:
  "policy (resort_ready s t) = policy s"
  "priority_inheritance_enabled (resort_ready s t) = priority_inheritance_enabled s"
  "current_task (resort_ready s t) = current_task s"
  "idle_task (resort_ready s t) = idle_task s"
  "system_ticks (resort_ready s t) = system_ticks s"
  "context_switches (resort_ready s t) = context_switches s"
  "mutexes (resort_ready s t) = mutexes s"
  "semaphores (resort_ready s t) = semaphores s"
  "task_priority (resort_ready s t) = task_priority s"
  "task_state (resort_ready s t) = task_state s"
  by (simp_all add: resort_ready_def)

lemma upd_task_frame [simp]:
  "policy (upd_task s t f) = policy s"
  "priority_inheritance_enabled (upd_task s t f) = priority_inheritance_enabled s"
  "current_task (upd_task s t f) = current_task s"
  "idle_task (upd_task s t f) = idle_task s"
  "system_ticks (upd_task s t f) = system_ticks s"
  "context_switches (upd_task s t f) = context_switches s"
  "mutexes (upd_task s t f) = mutexes s"
  "semaphores (upd_task s t f) = semaphores s"
  "ready_queue (upd_task s t f) = ready_queue s"
  by (simp_all add: upd_task_def)

lemma upd_mutex_frame [simp]:
  "policy (upd_mutex s m f) = policy s"
  "priority_inheritance_enabled (upd_mutex s m f) = priority_inheritance_enabled s"
  "current_task (upd_mutex s m f) = current_task s"
  "idle_task (upd_mutex s m f) = idle_task s"
  "system_ticks (upd_mutex s m f) = system_ticks s"
  "context_switches (upd_mutex s m f) = context_switches s"
  "all_tasks (upd_mutex s m f) = all_tasks s"
  "semaphores (upd_mutex s m f) = semaphores s"
  "ready_queue (upd_mutex s m f) = ready_queue s"
  "task_priority (upd_mutex s m f) = task_priority s"
  "task_state (upd_mutex s m f) = task_state s"
  "mutexes (upd_mutex s m f) = (mutexes s)[m := f (mutexes s ! m)]"
  by (simp_all add: upd_mutex_def task_priority_def task_state_def fun_eq_iff)

lemma upd_sem_frame [simp]:
  "policy (upd_sem s m f) = policy s"
  "priority_inheritance_enabled (upd_sem s m f) = priority_inheritance_enabled s"
  "current_task (upd_sem s m f) = current_task s"
  "idle_task (upd_sem s m f) = idle_task s"
  "system_ticks (upd_sem s m f) = system_ticks s"
  "context_switches (upd_sem s m f) = context_switches s"
  "all_tasks (upd_sem s m f) = all_tasks s"
  "mutexes (upd_sem s m f) = mutexes s"
  "ready_queue (upd_sem s m f) = ready_queue s"
  "task_priority (upd_sem s m f) = task_priority s"
  "task_state (upd_sem s m f) = task_state s"
  "semaphores (upd_sem s m f) = (semaphores s)[m := f (semaphores s ! m)]"
  by (simp_all add: upd_sem_def task_priority_def task_state_def fun_eq_iff)

lemma task_state_upd_task:
  "task_state (upd_task s t f) u =
     (if u = t \<and> t < length (all_tasks s) then state (f (all_tasks s ! t)) else task_state s u)"
  by (cases "t < length (all_tasks s)") (simp_all add: task_state_def list_update_beyond)

lemma task_priority_upd_task:
  "task_priority (upd_task s t f) u =
     (if u = t \<and> t < length (all_tasks s) then priority (f (all_tasks s ! t))
      else task_priority s u)"
  by (cases "t < length (all_tasks s)") (simp_all add: task_priority_def list_update_beyond)

section \<open>Priority inheritance: the boost and its recursion\<close>

lemma mutexes_inherit_step [simp]: "mutexes (inherit_step s t p) = mutexes s"
  by (simp add: inherit_step_def)

lemma length_inherit_step [simp]:
  "length (all_tasks (inherit_step s t p)) = length (all_tasks s)"
  by (simp add: inherit_step_def)

lemma inherit_step_other:
  "u \<noteq> t \<Longrightarrow> all_tasks (inherit_step s t p) ! u = all_tasks s ! u"
  by (simp add: inherit_step_def)

lemma inherit_step_self:
  "t < length (all_tasks s) \<Longrightarrow>
   all_tasks (inherit_step s t p) ! t =
     (if \<not> priority_inherited (all_tasks s ! t)
      then (all_tasks s ! t)\<lparr>original_priority := priority (all_tasks s ! t),
                             priority_inherited := True\<rparr>
      else all_tasks s ! t)
     \<lparr>priority := p, priority_boosts := priority_boosts (all_tasks s ! t) + 1\<rparr>"
  by (simp add: inherit_step_def)

lemma blocked_on_inherit_step [simp]:
  "blocked_on (all_tasks (inherit_step s t p) ! u) = blocked_on (all_tasks s ! u)"
  by (cases "t < length (all_tasks s)"; cases "u = t")
     (simp_all add: inherit_step_def list_update_beyond)

lemma blocking_owner_inherit_step [simp]:
  "blocking_owner (inherit_step s t p) u = blocking_owner s u"
  by (simp add: blocking_owner_def split: option.splits)

lemma priority_inherit_noop:
  "t \<ge> length (all_tasks s) \<or> p \<ge> priority (all_tasks s ! t) \<Longrightarrow> priority_inherit s t p = s"
  by (auto simp: priority_inherit.simps [of s t p])

lemma priority_inherit_unfold:
  "t < length (all_tasks s) \<Longrightarrow> p < priority (all_tasks s ! t) \<Longrightarrow>
   priority_inherit s t p =
     (case blocking_owner s t of
        None \<Rightarrow> inherit_step s t p
      | Some ow \<Rightarrow> priority_inherit (inherit_step s t p) ow p)"
  by (simp add: priority_inherit.simps [of s t p] Let_def)

text \<open>
  Induction along the boost chain: a property that holds of a state on which the boost
  returns at once, and passes from the rest of the chain to the whole chain.
\<close>

lemma priority_inherit_cases [case_names noop last chain]:
  assumes noop: "\<And>s t. t \<ge> length (all_tasks s) \<or> p \<ge> priority (all_tasks s ! t) \<Longrightarrow> P s t s"
    and last: "\<And>s t. t < length (all_tasks s) \<Longrightarrow> p < priority (all_tasks s ! t) \<Longrightarrow>
           blocking_owner s t = None \<Longrightarrow> P s t (inherit_step s t p)"
    and chain: "\<And>s t ow. t < length (all_tasks s) \<Longrightarrow> p < priority (all_tasks s ! t) \<Longrightarrow>
           blocking_owner s t = Some ow \<Longrightarrow>
           P (inherit_step s t p) ow (priority_inherit (inherit_step s t p) ow p) \<Longrightarrow>
           P s t (priority_inherit (inherit_step s t p) ow p)"
  shows "P s t (priority_inherit s t p)"
  using noop last chain
proof (induction s t p rule: priority_inherit.induct)
  case (1 s t q)
  show ?case
  proof (cases "t \<ge> length (all_tasks s) \<or> q \<ge> priority (all_tasks s ! t)")
    case True
    with 1(2) [of s t] show ?thesis by (simp add: priority_inherit_noop)
  next
    case False
    show ?thesis
    proof (cases "blocking_owner s t")
      case None
      with False 1(3) [of t s] show ?thesis by (simp add: priority_inherit_unfold)
    next
      case (Some ow)
      have "P (inherit_step s t q) ow (priority_inherit (inherit_step s t q) ow q)"
        using False Some 1(2-) by (intro 1(1) [OF _ _ refl, of ow]) simp_all
      with False Some 1(4) [of t s ow] show ?thesis
        by (simp add: priority_inherit_unfold)
    qed
  qed
qed

lemma priority_inherit_untouched:
  "u < length (all_tasks s) \<Longrightarrow> priority (all_tasks s ! u) \<le> p \<Longrightarrow>
   all_tasks (priority_inherit s t p) ! u = all_tasks s ! u"
proof (induction s t rule: priority_inherit_cases [where p = p])
  case (noop s t)
  show ?case by simp
next
  case (last s t)
  then have "u \<noteq> t" by auto
  then show ?case by (simp add: inherit_step_other)
next
  case (chain s t ow)
  then have "u \<noteq> t" by auto
  with chain show ?case by (simp add: inherit_step_other)
qed

lemma priority_inherit_measure_le:
  "length (filter (\<lambda>tk. p < priority tk) (all_tasks (priority_inherit s t p)))
   \<le> length (filter (\<lambda>tk. p < priority tk) (all_tasks s))"
proof (induction s t rule: priority_inherit_cases [where p = p])
  case (noop s t)
  show ?case by simp
next
  case (last s t)
  with inherit_step_measure [of t s p] show ?case by simp
next
  case (chain s t ow)
  with inherit_step_measure [of t s p] show ?case by simp
qed

lemma priority_inherit_self:
  assumes "t < length (all_tasks s)" "p < priority (all_tasks s ! t)"
  shows "all_tasks (priority_inherit s t p) ! t = all_tasks (inherit_step s t p) ! t"
proof (cases "blocking_owner s t")
  case None
  with assms show ?thesis by (simp add: priority_inherit_unfold)
next
  case (Some ow)
  have "priority (all_tasks (inherit_step s t p) ! t) \<le> p"
    using assms by (simp add: inherit_step_self)
  with assms Some show ?thesis
    by (simp add: priority_inherit_unfold priority_inherit_untouched)
qed

lemma priority_inherit_priority:
  assumes "t < length (all_tasks s)"
  shows "priority (all_tasks (priority_inherit s t p) ! t) = min p (priority (all_tasks s ! t))"
proof (cases "p < priority (all_tasks s ! t)")
  case True
  with assms show ?thesis by (simp add: priority_inherit_self inherit_step_self)
next
  case False
  then show ?thesis by (simp add: priority_inherit_noop)
qed

text \<open>
  C1. \<open>priority_inherit(owner, p)\<close> changes nothing when \<open>p \<ge> owner.priority\<close>.
  Otherwise, in the state it returns, the owner has priority \<open>p\<close>, one more boost
  counted, the inherited flag set, and as original priority the priority it had before
  if it was not inherited and the old snapshot if it was; the result is the boost of
  the owner of the mutex the task is blocked on, applied to the state after this
  task's own step, so that this owner ends at \<open>min p\<close> of its priority. The recursion is
  total (the termination proof of \<open>priority_inherit\<close>): each call that does not return
  at once leaves strictly fewer tasks with a priority number above \<open>p\<close>.
\<close>

theorem priority_inherit_boost:
  assumes "t < length (all_tasks s)"
  shows "(task_priority s t \<le> p \<longrightarrow> priority_inherit s t p = s) \<and>
         (p < task_priority s t \<longrightarrow>
            (let s' = priority_inherit s t p; tk = all_tasks s ! t; tk' = all_tasks s' ! t in
               priority tk' = p \<and>
               priority_boosts tk' = priority_boosts tk + 1 \<and>
               priority_inherited tk' \<and>
               original_priority tk' =
                 (if priority_inherited tk then original_priority tk else priority tk) \<and>
               s' = (case blocking_owner s t of
                       None \<Rightarrow> inherit_step s t p
                     | Some ow \<Rightarrow> priority_inherit (inherit_step s t p) ow p) \<and>
               (\<forall>ow. blocking_owner s t = Some ow \<and> ow < length (all_tasks s) \<longrightarrow>
                     task_priority s' ow = min p (task_priority s ow)) \<and>
               length (filter (\<lambda>x. p < priority x) (all_tasks s'))
                 < length (filter (\<lambda>x. p < priority x) (all_tasks s))))"
proof (intro conjI impI)
  assume "task_priority s t \<le> p"
  then show "priority_inherit s t p = s"
    by (simp add: priority_inherit_noop task_priority_def)
next
  assume "p < task_priority s t"
  then have lt: "p < priority (all_tasks s ! t)" by (simp add: task_priority_def)
  let ?s1 = "inherit_step s t p"
  have self: "all_tasks (priority_inherit s t p) ! t = all_tasks ?s1 ! t"
    using assms lt by (rule priority_inherit_self)
  have unf: "priority_inherit s t p =
      (case blocking_owner s t of None \<Rightarrow> ?s1 | Some ow \<Rightarrow> priority_inherit ?s1 ow p)"
    using assms lt by (rule priority_inherit_unfold)
  have own: "task_priority (priority_inherit s t p) ow = min p (task_priority s ow)"
    if bo: "blocking_owner s t = Some ow" and v: "ow < length (all_tasks s)" for ow
  proof (cases "ow = t")
    case True
    with assms lt show ?thesis
      by (simp add: task_priority_def priority_inherit_priority)
  next
    case False
    have "task_priority (priority_inherit ?s1 ow p) ow = min p (task_priority ?s1 ow)"
      using v by (simp add: task_priority_def priority_inherit_priority)
    with False bo unf show ?thesis
      by (simp add: task_priority_def inherit_step_other)
  qed
  have "length (filter (\<lambda>x. p < priority x) (all_tasks (priority_inherit s t p)))
        \<le> length (filter (\<lambda>x. p < priority x) (all_tasks ?s1))"
  proof (cases "blocking_owner s t")
    case None
    with unf show ?thesis by simp
  next
    case (Some ow)
    with unf priority_inherit_measure_le [of p ?s1 ow] show ?thesis by simp
  qed
  with inherit_step_measure [OF assms lt]
  have meas: "length (filter (\<lambda>x. p < priority x) (all_tasks (priority_inherit s t p)))
        < length (filter (\<lambda>x. p < priority x) (all_tasks s))"
    by simp
  show "let s' = priority_inherit s t p; tk = all_tasks s ! t; tk' = all_tasks s' ! t in
               priority tk' = p \<and>
               priority_boosts tk' = priority_boosts tk + 1 \<and>
               priority_inherited tk' \<and>
               original_priority tk' =
                 (if priority_inherited tk then original_priority tk else priority tk) \<and>
               s' = (case blocking_owner s t of
                       None \<Rightarrow> inherit_step s t p
                     | Some ow \<Rightarrow> priority_inherit (inherit_step s t p) ow p) \<and>
               (\<forall>ow. blocking_owner s t = Some ow \<and> ow < length (all_tasks s) \<longrightarrow>
                     task_priority s' ow = min p (task_priority s ow)) \<and>
               length (filter (\<lambda>x. p < priority x) (all_tasks s'))
                 < length (filter (\<lambda>x. p < priority x) (all_tasks s))"
    unfolding Let_def
  proof (intro conjI allI impI)
    show "priority_inherit s t p =
      (case blocking_owner s t of None \<Rightarrow> ?s1 | Some ow \<Rightarrow> priority_inherit ?s1 ow p)"
      by (rule unf)
  qed (use self assms own meas in \<open>simp_all add: inherit_step_self\<close>)
qed

theorem priority_inherit_boost_witness:
  "2 < length (all_tasks chain_state) \<and>
   task_priority chain_state 2 \<le> 15 \<and> priority_inherit chain_state 2 15 = chain_state \<and>
   1 < task_priority chain_state 2 \<and> blocking_owner chain_state 2 = Some 1 \<and>
   task_priority (priority_inherit chain_state 2 1) 2 = 1 \<and>
   task_priority (priority_inherit chain_state 2 1) 1 = 1"
proof -
  have v: "2 < length (all_tasks chain_state)" by code_simp
  have a: "task_priority chain_state 2 \<le> 15" by code_simp
  have b: "1 < task_priority chain_state 2" by code_simp
  have c: "blocking_owner chain_state 2 = Some 1" by code_simp
  have d: "1 < length (all_tasks chain_state)" "task_priority chain_state 1 = 15" by code_simp+
  have "priority_inherit chain_state 2 15 = chain_state"
    using priority_inherit_boost [OF v, of 15] a by simp
  moreover have "task_priority (priority_inherit chain_state 2 1) 2 = 1"
    using priority_inherit_boost [OF v, of 1] b unfolding Let_def task_priority_def by blast
  moreover have "task_priority (priority_inherit chain_state 2 1) 1
                   = min 1 (task_priority chain_state 1)"
    using priority_inherit_boost [OF v, of 1] b c d(1) unfolding Let_def by blast
  ultimately show ?thesis using v a b c d(2) by simp
qed

section \<open>The priority that \<open>priority_restore\<close> computes\<close>

lemma needed_over_waiters_min:
  "needed_over_waiters s ws nd \<le> nd \<and>
   (\<forall>w \<in> set ws. needed_over_waiters s ws nd \<le> task_priority s w) \<and>
   (needed_over_waiters s ws nd = nd \<or> needed_over_waiters s ws nd \<in> task_priority s ` set ws)"
proof (induction ws arbitrary: nd)
  case Nil
  show ?case by (simp add: needed_over_waiters_def)
next
  case (Cons w ws)
  let ?nd = "if task_priority s w < nd then task_priority s w else nd"
  have eq: "needed_over_waiters s (w # ws) nd = needed_over_waiters s ws ?nd"
    by (simp add: needed_over_waiters_def)
  from Cons.IH [of ?nd] show ?case
    unfolding eq by (auto split: if_splits)
qed

lemma needed_fold_min:
  "fold (needed_step s) hs nd \<le> nd \<and>
   (\<forall>x \<in> waiter_priorities s hs. fold (needed_step s) hs nd \<le> x) \<and>
   (fold (needed_step s) hs nd = nd \<or> fold (needed_step s) hs nd \<in> waiter_priorities s hs)"
proof (induction hs arbitrary: nd)
  case Nil
  show ?case by (simp add: waiter_priorities_def)
next
  case (Cons m hs)
  have wp: "waiter_priorities s (m # hs) =
      (if m < length (mutexes s) then task_priority s ` set (wait_queue (mutexes s ! m)) else {})
      \<union> waiter_priorities s hs"
    by (auto simp: waiter_priorities_def)
  from Cons.IH [of "needed_step s m nd"]
    needed_over_waiters_min [of s "wait_queue (mutexes s ! m)" nd]
  show ?case
    unfolding wp by (fastforce simp: needed_step_def split: if_splits)
qed

lemma finite_waiter_priorities: "finite (waiter_priorities s hs)"
  by (simp add: waiter_priorities_def)

lemma needed_priority_Min:
  "needed_priority s t =
     Min (insert (original_priority (all_tasks s ! t))
                 (waiter_priorities s (held_mutexes (all_tasks s ! t))))"
proof -
  let ?hs = "held_mutexes (all_tasks s ! t)" and ?o = "original_priority (all_tasks s ! t)"
  have r: "needed_priority s t = fold (needed_step s) ?hs ?o" by (simp add: needed_priority_def)
  from needed_fold_min [of s ?hs ?o] show ?thesis
    unfolding r
    by (intro Min_eqI [symmetric]) (auto simp: finite_waiter_priorities)
qed

lemma needed_priority_uncontended:
  assumes "\<forall>m \<in> set (held_mutexes (all_tasks s ! t)). m < length (mutexes s) \<longrightarrow> wait_queue (mutexes s ! m) = []"
  shows "needed_priority s t = original_priority (all_tasks s ! t)"
proof -
  have "waiter_priorities s (held_mutexes (all_tasks s ! t)) = {}"
    using assms by (auto simp: waiter_priorities_def)
  then show ?thesis by (simp add: needed_priority_Min)
qed

lemma priority_restore_self:
  assumes "t < length (all_tasks s)" "priority_inherited (all_tasks s ! t)"
  shows "all_tasks (priority_restore s t) ! t =
      (all_tasks s ! t)\<lparr>priority := needed_priority s t,
         priority_inherited := (needed_priority s t \<noteq> original_priority (all_tasks s ! t))\<rparr>"
  using assms by (simp add: priority_restore_def Let_def)

section \<open>Fields that an operation does not touch\<close>

text \<open>
  A view \<open>v\<close> of a task is untouched by an operation when \<open>map v\<close> of the task array
  is the same before and after.
\<close>

lemma map_list_update_same: "f y = f (xs ! i) \<Longrightarrow> map f (xs[i := y]) = map f xs"
  by (cases "i < length xs") (simp_all add: map_update list_update_same_conv list_update_beyond)

lemma upd_task_view:
  "(\<And>tk. v (f tk) = v tk) \<Longrightarrow> map v (all_tasks (upd_task s t f)) = map v (all_tasks s)"
  by (simp add: all_tasks_upd_task map_list_update_same)

lemma task_set_state_view:
  "ignores_sched v \<Longrightarrow> map v (all_tasks (task_set_state s t ns)) = map v (all_tasks s)"
  by (simp add: task_set_state_def Let_def ignores_sched_def upd_task_view)

lemma scheduler_context_switch_view:
  "ignores_sched v \<Longrightarrow> map v (all_tasks (scheduler_context_switch s a b)) = map v (all_tasks s)"
  by (simp add: scheduler_context_switch_def Let_def ignores_sched_def upd_task_view
           split: option.splits)

lemma scheduler_schedule_view:
  "ignores_sched v \<Longrightarrow> map v (all_tasks (scheduler_schedule s)) = map v (all_tasks s)"
  by (simp add: scheduler_schedule_def Let_def scheduler_context_switch_view
           split: option.splits)

lemma ignores_sched_prio_view [simp]: "ignores_sched prio_view"
  by (simp add: ignores_sched_def prio_view_def)

lemma view_nth:
  "map v (all_tasks s') = map v (all_tasks s) \<Longrightarrow> t < length (all_tasks s) \<Longrightarrow>
   v (all_tasks s' ! t) = v (all_tasks s ! t)"
  by (metis length_map nth_map)

section \<open>Restoring a priority (C2)\<close>

lemma task_remove_held_mutex_view:
  "(\<And>tk a. v (tk\<lparr>held_mutexes := a\<rparr>) = v tk) \<Longrightarrow>
   map v (all_tasks (task_remove_held_mutex s t m)) = map v (all_tasks s)"
  by (simp add: task_remove_held_mutex_def upd_task_view)

lemma task_add_held_mutex_view:
  "(\<And>tk a. v (tk\<lparr>held_mutexes := a\<rparr>) = v tk) \<Longrightarrow>
   map v (all_tasks (task_add_held_mutex s t m)) = map v (all_tasks s)"
  by (simp add: task_add_held_mutex_def upd_task_view)

lemma prio_view_simps [simp]:
  "prio_view (tk\<lparr>held_mutexes := a\<rparr>) = prio_view tk"
  "prio_view (tk\<lparr>blocked_on := b\<rparr>) = prio_view tk"
  "prio_view (tk\<lparr>state := c\<rparr>) = prio_view tk"
  by (simp_all add: prio_view_def)

text \<open>The hand-off and the dispatch at the end of an unlock leave the priorities alone.\<close>

lemma unlock_handoff_view:
  "map prio_view (all_tasks
     (case ws of
        [] \<Rightarrow> upd_mutex s m (\<lambda>mx. mx\<lparr>locked := False, owner := None\<rparr>)
      | waiter # rest \<Rightarrow>
          let a = upd_mutex s m (\<lambda>mx. mx\<lparr>wait_queue := rest\<rparr>);
              b = upd_task a waiter (\<lambda>tk. tk\<lparr>blocked_on := None\<rparr>);
              c = upd_mutex b m (\<lambda>mx. mx\<lparr>owner := Some waiter\<rparr>);
              d = task_add_held_mutex c waiter m
          in task_set_state d waiter TASK_READY))
   = map prio_view (all_tasks s)"
  by (simp add: Let_def task_set_state_view task_add_held_mutex_view upd_task_view
           split: list.splits)

lemma mutex_unlock_prio_view:
  assumes "m < length (mutexes s)" "t < length (all_tasks s)" "owner (mutexes s ! m) = Some t"
  shows "map prio_view (all_tasks (mutex_unlock s m t)) =
         map prio_view (all_tasks
           (let s1 = task_remove_held_mutex s t m
            in if priority_inheritance_enabled s then priority_restore s1 t else s1))"
  using assms
  by (simp add: mutex_unlock_def Let_def scheduler_schedule_view unlock_handoff_view
                task_remove_held_mutex_def)

text \<open>
  C2. For a task whose inherited flag is set, \<open>priority_restore\<close> sets the priority to
  the minimum of the original priority and the priorities of all waiters of all
  mutexes in the held set, keeps the original priority, and leaves the inherited flag
  set exactly when that minimum differs from the original priority. Hence, with
  priority inheritance enabled, after \<open>mutex_unlock(m, t)\<close> by the owner \<open>t\<close>, when no
  mutex that remains in the held set has a waiter, the task is back at its original
  priority with the flag cleared.
\<close>

theorem priority_restore_releases:
  "(t < length (all_tasks s) \<and> priority_inherited (all_tasks s ! t) \<longrightarrow>
      (let tk = all_tasks s ! t; tk' = all_tasks (priority_restore s t) ! t;
           needed = Min (insert (original_priority tk) (waiter_priorities s (held_mutexes tk)))
       in priority tk' = needed \<and> original_priority tk' = original_priority tk \<and>
          (priority_inherited tk' \<longleftrightarrow> needed \<noteq> original_priority tk)))
   \<and>
   (m < length (mutexes s) \<and> t < length (all_tasks s) \<and> owner (mutexes s ! m) = Some t \<and>
    priority_inheritance_enabled s \<and> priority_inherited (all_tasks s ! t) \<and>
    (\<forall>m' \<in> set (remove1 m (held_mutexes (all_tasks s ! t))).
        m' < length (mutexes s) \<longrightarrow> wait_queue (mutexes s ! m') = []) \<longrightarrow>
      (let tk' = all_tasks (mutex_unlock s m t) ! t
       in \<not> priority_inherited tk' \<and> priority tk' = original_priority tk' \<and>
          original_priority tk' = original_priority (all_tasks s ! t)))"
proof (intro conjI impI)
  assume "t < length (all_tasks s) \<and> priority_inherited (all_tasks s ! t)"
  then show "let tk = all_tasks s ! t; tk' = all_tasks (priority_restore s t) ! t;
           needed = Min (insert (original_priority tk) (waiter_priorities s (held_mutexes tk)))
       in priority tk' = needed \<and> original_priority tk' = original_priority tk \<and>
          (priority_inherited tk' \<longleftrightarrow> needed \<noteq> original_priority tk)"
    by (simp add: Let_def priority_restore_self needed_priority_Min)
next
  assume a: "m < length (mutexes s) \<and> t < length (all_tasks s) \<and> owner (mutexes s ! m) = Some t \<and>
    priority_inheritance_enabled s \<and> priority_inherited (all_tasks s ! t) \<and>
    (\<forall>m' \<in> set (remove1 m (held_mutexes (all_tasks s ! t))).
        m' < length (mutexes s) \<longrightarrow> wait_queue (mutexes s ! m') = [])"
  let ?s1 = "task_remove_held_mutex s t m"
  have s1: "t < length (all_tasks ?s1)" "priority_inherited (all_tasks ?s1 ! t)"
    "original_priority (all_tasks ?s1 ! t) = original_priority (all_tasks s ! t)"
    "held_mutexes (all_tasks ?s1 ! t) = remove1 m (held_mutexes (all_tasks s ! t))"
    "mutexes ?s1 = mutexes s"
    using a by (simp_all add: task_remove_held_mutex_def)
  have nd: "needed_priority ?s1 t = original_priority (all_tasks s ! t)"
    using a needed_priority_uncontended [of ?s1 t] s1 by simp
  have r: "prio_view (all_tasks (priority_restore ?s1 t) ! t) =
           (original_priority (all_tasks s ! t), original_priority (all_tasks s ! t), False)"
    using s1 nd by (simp add: priority_restore_self prio_view_def)
  have len: "length (all_tasks (priority_restore ?s1 t)) = length (all_tasks s)"
    by (simp add: priority_restore_def Let_def task_remove_held_mutex_def)
  have "map prio_view (all_tasks (mutex_unlock s m t)) =
        map prio_view (all_tasks (priority_restore ?s1 t))"
    using a by (simp add: mutex_unlock_prio_view Let_def)
  then have "prio_view (all_tasks (mutex_unlock s m t) ! t) =
        prio_view (all_tasks (priority_restore ?s1 t) ! t)"
    using a len by (intro view_nth) simp_all
  with r show "let tk' = all_tasks (mutex_unlock s m t) ! t
       in \<not> priority_inherited tk' \<and> priority tk' = original_priority tk' \<and>
          original_priority tk' = original_priority (all_tasks s ! t)"
    by (simp add: prio_view_def Let_def)
qed

theorem priority_restore_releases_witness:
  "priority (all_tasks (priority_restore chain_state 1) ! 1) = 15 \<and>
   priority_inherited (all_tasks (priority_restore chain_state 1) ! 1) \<and>
   original_priority (all_tasks chain_state ! 1) = 20 \<and>
   priority (all_tasks (mutex_unlock chain_state 0 1) ! 1) = 20 \<and>
   \<not> priority_inherited (all_tasks (mutex_unlock chain_state 0 1) ! 1)"
proof -
  have h1: "1 < length (all_tasks chain_state) \<and> priority_inherited (all_tasks chain_state ! 1)"
    by code_simp
  have h2: "0 < length (mutexes chain_state) \<and> 1 < length (all_tasks chain_state) \<and>
    owner (mutexes chain_state ! 0) = Some 1 \<and>
    priority_inheritance_enabled chain_state \<and> priority_inherited (all_tasks chain_state ! 1) \<and>
    (\<forall>m' \<in> set (remove1 0 (held_mutexes (all_tasks chain_state ! 1))).
        m' < length (mutexes chain_state) \<longrightarrow> wait_queue (mutexes chain_state ! m') = [])"
    by code_simp
  have e: "original_priority (all_tasks chain_state ! 1) = 20"
    "Min (insert (original_priority (all_tasks chain_state ! 1))
        (waiter_priorities chain_state (held_mutexes (all_tasks chain_state ! 1)))) = 15"
    by code_simp+
  from priority_restore_releases [of 1 chain_state 0, THEN conjunct1, rule_format, OF h1]
  have "priority (all_tasks (priority_restore chain_state 1) ! 1) = 15 \<and>
        priority_inherited (all_tasks (priority_restore chain_state 1) ! 1)"
    using e by (simp add: Let_def)
  moreover
  from priority_restore_releases [of 1 chain_state 0, THEN conjunct2, rule_format, OF h2]
  have "priority (all_tasks (mutex_unlock chain_state 0 1) ! 1) = 20 \<and>
   \<not> priority_inherited (all_tasks (mutex_unlock chain_state 0 1) ! 1)"
    using e by (simp add: Let_def)
  ultimately show ?thesis using e by simp
qed

section \<open>Frame lemmas for the operations\<close>

lemma task_set_state_frame [simp]:
  "policy (task_set_state s t ns) = policy s"
  "priority_inheritance_enabled (task_set_state s t ns) = priority_inheritance_enabled s"
  "current_task (task_set_state s t ns) = current_task s"
  "idle_task (task_set_state s t ns) = idle_task s"
  "system_ticks (task_set_state s t ns) = system_ticks s"
  "context_switches (task_set_state s t ns) = context_switches s"
  "mutexes (task_set_state s t ns) = mutexes s"
  "semaphores (task_set_state s t ns) = semaphores s"
  "length (all_tasks (task_set_state s t ns)) = length (all_tasks s)"
  by (simp_all add: task_set_state_def Let_def)

lemma task_add_held_mutex_frame [simp]:
  "policy (task_add_held_mutex s t m) = policy s"
  "priority_inheritance_enabled (task_add_held_mutex s t m) = priority_inheritance_enabled s"
  "current_task (task_add_held_mutex s t m) = current_task s"
  "idle_task (task_add_held_mutex s t m) = idle_task s"
  "system_ticks (task_add_held_mutex s t m) = system_ticks s"
  "context_switches (task_add_held_mutex s t m) = context_switches s"
  "mutexes (task_add_held_mutex s t m) = mutexes s"
  "semaphores (task_add_held_mutex s t m) = semaphores s"
  "ready_queue (task_add_held_mutex s t m) = ready_queue s"
  "length (all_tasks (task_add_held_mutex s t m)) = length (all_tasks s)"
  by (simp_all add: task_add_held_mutex_def)

lemma task_remove_held_mutex_frame [simp]:
  "policy (task_remove_held_mutex s t m) = policy s"
  "priority_inheritance_enabled (task_remove_held_mutex s t m) = priority_inheritance_enabled s"
  "current_task (task_remove_held_mutex s t m) = current_task s"
  "idle_task (task_remove_held_mutex s t m) = idle_task s"
  "system_ticks (task_remove_held_mutex s t m) = system_ticks s"
  "context_switches (task_remove_held_mutex s t m) = context_switches s"
  "mutexes (task_remove_held_mutex s t m) = mutexes s"
  "semaphores (task_remove_held_mutex s t m) = semaphores s"
  "ready_queue (task_remove_held_mutex s t m) = ready_queue s"
  "length (all_tasks (task_remove_held_mutex s t m)) = length (all_tasks s)"
  by (simp_all add: task_remove_held_mutex_def)

lemma priority_restore_frame [simp]:
  "policy (priority_restore s t) = policy s"
  "priority_inheritance_enabled (priority_restore s t) = priority_inheritance_enabled s"
  "current_task (priority_restore s t) = current_task s"
  "idle_task (priority_restore s t) = idle_task s"
  "system_ticks (priority_restore s t) = system_ticks s"
  "context_switches (priority_restore s t) = context_switches s"
  "mutexes (priority_restore s t) = mutexes s"
  "semaphores (priority_restore s t) = semaphores s"
  "length (all_tasks (priority_restore s t)) = length (all_tasks s)"
  by (simp_all add: priority_restore_def Let_def)

lemma inherit_step_frame [simp]:
  "policy (inherit_step s t p) = policy s"
  "priority_inheritance_enabled (inherit_step s t p) = priority_inheritance_enabled s"
  "current_task (inherit_step s t p) = current_task s"
  "idle_task (inherit_step s t p) = idle_task s"
  "system_ticks (inherit_step s t p) = system_ticks s"
  "context_switches (inherit_step s t p) = context_switches s"
  "semaphores (inherit_step s t p) = semaphores s"
  by (simp_all add: inherit_step_def)

lemma priority_inherit_frame [simp]:
  "policy (priority_inherit s t p) = policy s"
  "priority_inheritance_enabled (priority_inherit s t p) = priority_inheritance_enabled s"
  "current_task (priority_inherit s t p) = current_task s"
  "idle_task (priority_inherit s t p) = idle_task s"
  "system_ticks (priority_inherit s t p) = system_ticks s"
  "context_switches (priority_inherit s t p) = context_switches s"
  "mutexes (priority_inherit s t p) = mutexes s"
  "semaphores (priority_inherit s t p) = semaphores s"
  "length (all_tasks (priority_inherit s t p)) = length (all_tasks s)"
  by (induction s t rule: priority_inherit_cases [where p = p]; simp)+

lemma scheduler_context_switch_frame [simp]:
  "policy (scheduler_context_switch s a b) = policy s"
  "priority_inheritance_enabled (scheduler_context_switch s a b) = priority_inheritance_enabled s"
  "idle_task (scheduler_context_switch s a b) = idle_task s"
  "system_ticks (scheduler_context_switch s a b) = system_ticks s"
  "mutexes (scheduler_context_switch s a b) = mutexes s"
  "semaphores (scheduler_context_switch s a b) = semaphores s"
  "length (all_tasks (scheduler_context_switch s a b)) = length (all_tasks s)"
  by (simp_all add: scheduler_context_switch_def Let_def split: option.splits)

lemma scheduler_schedule_frame [simp]:
  "policy (scheduler_schedule s) = policy s"
  "priority_inheritance_enabled (scheduler_schedule s) = priority_inheritance_enabled s"
  "idle_task (scheduler_schedule s) = idle_task s"
  "system_ticks (scheduler_schedule s) = system_ticks s"
  "mutexes (scheduler_schedule s) = mutexes s"
  "semaphores (scheduler_schedule s) = semaphores s"
  "length (all_tasks (scheduler_schedule s)) = length (all_tasks s)"
  by (simp_all add: scheduler_schedule_def Let_def split: option.splits)

lemma wait_queue_insert_frame [simp]:
  "policy (wait_queue_insert s m t) = policy s"
  "priority_inheritance_enabled (wait_queue_insert s m t) = priority_inheritance_enabled s"
  "current_task (wait_queue_insert s m t) = current_task s"
  "idle_task (wait_queue_insert s m t) = idle_task s"
  "system_ticks (wait_queue_insert s m t) = system_ticks s"
  "context_switches (wait_queue_insert s m t) = context_switches s"
  "all_tasks (wait_queue_insert s m t) = all_tasks s"
  "semaphores (wait_queue_insert s m t) = semaphores s"
  "ready_queue (wait_queue_insert s m t) = ready_queue s"
  "task_priority (wait_queue_insert s m t) = task_priority s"
  "task_state (wait_queue_insert s m t) = task_state s"
  "length (mutexes (wait_queue_insert s m t)) = length (mutexes s)"
  by (simp_all add: wait_queue_insert_def)

lemma sem_wait_queue_insert_frame [simp]:
  "policy (sem_wait_queue_insert s m t) = policy s"
  "priority_inheritance_enabled (sem_wait_queue_insert s m t) = priority_inheritance_enabled s"
  "current_task (sem_wait_queue_insert s m t) = current_task s"
  "idle_task (sem_wait_queue_insert s m t) = idle_task s"
  "system_ticks (sem_wait_queue_insert s m t) = system_ticks s"
  "context_switches (sem_wait_queue_insert s m t) = context_switches s"
  "all_tasks (sem_wait_queue_insert s m t) = all_tasks s"
  "mutexes (sem_wait_queue_insert s m t) = mutexes s"
  "ready_queue (sem_wait_queue_insert s m t) = ready_queue s"
  "task_priority (sem_wait_queue_insert s m t) = task_priority s"
  "task_state (sem_wait_queue_insert s m t) = task_state s"
  "length (semaphores (sem_wait_queue_insert s m t)) = length (semaphores s)"
  by (simp_all add: sem_wait_queue_insert_def)

section \<open>Unlocking a mutex\<close>

lemma task_set_state_self:
  "t < length (all_tasks s) \<Longrightarrow> task_state (task_set_state s t ns) t = ns"
  by (simp add: task_set_state_def Let_def task_state_def)

lemma task_set_state_other:
  "u \<noteq> t \<Longrightarrow> all_tasks (task_set_state s t ns) ! u = all_tasks s ! u"
  by (simp add: task_set_state_def Let_def)

lemma task_set_state_ready_queued:
  assumes "t < length (all_tasks s)" "task_state s t \<noteq> TASK_READY"
    "length (ready_queue s) < MAX_READY_TASKS"
  shows "t \<in> set (ready_queue (task_set_state s t TASK_READY))"
proof -
  have "t \<in> set (insert_by_priority pr t xs)" for pr xs
    by (induction xs) simp_all
  with assms show ?thesis
    by (simp add: task_set_state_def Let_def task_state_def ready_queue_insert_def)
qed

lemma task_set_state_blocked_on [simp]:
  "blocked_on (all_tasks (task_set_state s t ns) ! u) = blocked_on (all_tasks s ! u)"
  by (simp add: task_set_state_def Let_def)

lemma task_set_state_held_mutexes [simp]:
  "held_mutexes (all_tasks (task_set_state s t ns) ! u) = held_mutexes (all_tasks s ! u)"
  by (simp add: task_set_state_def Let_def)

text \<open>
  The steps of an unlock. \<open>mutex_unlock(m, t)\<close> by the owner first removes \<open>m\<close> from the owner's held set,
  then (with priority inheritance enabled) restores the owner's priority, while the
  mutex still has its owner and all its waiters. With an empty wait queue the mutex
  then becomes unlocked without owner. Otherwise the head \<open>w\<close> of the wait queue is
  popped, its \<open>blocked_on\<close> is cleared, it becomes the owner, \<open>m\<close> is appended to its
  held set and it becomes Ready (queued, when it was not Ready and the ready queue has
  room); the \<open>locked\<close> flag is not touched and no other task changes. The last step
  is the dispatch.
\<close>

lemma mutex_unlock_steps:
  "m < length (mutexes s) \<and> t < length (all_tasks s) \<and> owner (mutexes s ! m) = Some t \<longrightarrow>
   (let s1 = task_remove_held_mutex s t m;
        s2 = (if priority_inheritance_enabled s then priority_restore s1 t else s1)
    in held_mutexes (all_tasks s1 ! t) = remove1 m (held_mutexes (all_tasks s ! t)) \<and>
       mutexes s2 = mutexes s \<and>
       (case wait_queue (mutexes s ! m) of
          [] \<Rightarrow> mutex_unlock s m t =
                 scheduler_schedule (upd_mutex s2 m (\<lambda>mx. mx\<lparr>locked := False, owner := None\<rparr>))
        | w # rest \<Rightarrow>
            (\<exists>s3. mutex_unlock s m t = scheduler_schedule s3 \<and>
                  mutexes s3 = (mutexes s)[m := (mutexes s ! m)\<lparr>wait_queue := rest, owner := Some w\<rparr>] \<and>
                  (\<forall>u. u \<noteq> w \<longrightarrow> all_tasks s3 ! u = all_tasks s2 ! u) \<and>
                  (w < length (all_tasks s) \<longrightarrow>
                     blocked_on (all_tasks s3 ! w) = None \<and>
                     held_mutexes (all_tasks s3 ! w) = held_mutexes (all_tasks s2 ! w) @ [m] \<and>
                     task_state s3 w = TASK_READY \<and>
                     (task_state s2 w \<noteq> TASK_READY \<and> length (ready_queue s2) < MAX_READY_TASKS
                        \<longrightarrow> w \<in> set (ready_queue s3))))))"
proof (intro impI)
  assume a: "m < length (mutexes s) \<and> t < length (all_tasks s) \<and> owner (mutexes s ! m) = Some t"
  define s1 where "s1 = task_remove_held_mutex s t m"
  define s2 where "s2 = (if priority_inheritance_enabled s then priority_restore s1 t else s1)"
  have held: "held_mutexes (all_tasks s1 ! t) = remove1 m (held_mutexes (all_tasks s ! t))"
    using a by (simp add: s1_def task_remove_held_mutex_def)
  have mx: "mutexes s2 = mutexes s" by (simp add: s2_def s1_def)
  have len: "length (all_tasks s2) = length (all_tasks s)" by (simp add: s2_def s1_def)
  have unl: "mutex_unlock s m t = scheduler_schedule
        (case wait_queue (mutexes s ! m) of
           [] \<Rightarrow> upd_mutex s2 m (\<lambda>mx. mx\<lparr>locked := False, owner := None\<rparr>)
         | waiter # rest \<Rightarrow>
             let a = upd_mutex s2 m (\<lambda>mx. mx\<lparr>wait_queue := rest\<rparr>);
                 b = upd_task a waiter (\<lambda>tk. tk\<lparr>blocked_on := None\<rparr>);
                 c = upd_mutex b m (\<lambda>mx. mx\<lparr>owner := Some waiter\<rparr>);
                 d = task_add_held_mutex c waiter m
             in task_set_state d waiter TASK_READY)"
    using a unfolding s2_def s1_def by (simp add: mutex_unlock_def Let_def)
  have tail: "case wait_queue (mutexes s ! m) of
          [] \<Rightarrow> mutex_unlock s m t =
                 scheduler_schedule (upd_mutex s2 m (\<lambda>mx. mx\<lparr>locked := False, owner := None\<rparr>))
        | w # rest \<Rightarrow>
            (\<exists>s3. mutex_unlock s m t = scheduler_schedule s3 \<and>
                  mutexes s3 = (mutexes s)[m := (mutexes s ! m)\<lparr>wait_queue := rest, owner := Some w\<rparr>] \<and>
                  (\<forall>u. u \<noteq> w \<longrightarrow> all_tasks s3 ! u = all_tasks s2 ! u) \<and>
                  (w < length (all_tasks s) \<longrightarrow>
                     blocked_on (all_tasks s3 ! w) = None \<and>
                     held_mutexes (all_tasks s3 ! w) = held_mutexes (all_tasks s2 ! w) @ [m] \<and>
                     task_state s3 w = TASK_READY \<and>
                     (task_state s2 w \<noteq> TASK_READY \<and> length (ready_queue s2) < MAX_READY_TASKS
                        \<longrightarrow> w \<in> set (ready_queue s3))))"
  proof (cases "wait_queue (mutexes s ! m)")
    case Nil
    with unl show ?thesis by simp
  next
    case (Cons w rest)
    define d where "d = task_add_held_mutex
        (upd_mutex (upd_task (upd_mutex s2 m (\<lambda>mx. mx\<lparr>wait_queue := rest\<rparr>)) w
                     (\<lambda>tk. tk\<lparr>blocked_on := None\<rparr>)) m (\<lambda>mx. mx\<lparr>owner := Some w\<rparr>)) w m"
    define s3 where "s3 = task_set_state d w TASK_READY"
    have u: "mutex_unlock s m t = scheduler_schedule s3"
      using unl Cons by (simp add: s3_def d_def Let_def)
    have m3: "mutexes s3 = (mutexes s)[m := (mutexes s ! m)\<lparr>wait_queue := rest, owner := Some w\<rparr>]"
      using a by (simp add: s3_def d_def mx)
    have oth: "all_tasks s3 ! u = all_tasks s2 ! u" if "u \<noteq> w" for u
      using that by (simp add: s3_def d_def task_set_state_other task_add_held_mutex_def)
    have dw: "length (all_tasks d) = length (all_tasks s)" "ready_queue d = ready_queue s2"
      by (simp_all add: d_def len)
    have slf: "blocked_on (all_tasks s3 ! w) = None \<and>
               held_mutexes (all_tasks s3 ! w) = held_mutexes (all_tasks s2 ! w) @ [m] \<and>
               task_state s3 w = TASK_READY \<and>
               (task_state s2 w \<noteq> TASK_READY \<and> length (ready_queue s2) < MAX_READY_TASKS
                        \<longrightarrow> w \<in> set (ready_queue s3))"
      if w: "w < length (all_tasks s)"
    proof -
      have "task_state d w = task_state s2 w"
        using w by (simp add: d_def task_state_def task_add_held_mutex_def len)
      then have "task_state s2 w \<noteq> TASK_READY \<and> length (ready_queue s2) < MAX_READY_TASKS
                        \<longrightarrow> w \<in> set (ready_queue s3)"
        using w dw task_set_state_ready_queued [of w d] by (simp add: s3_def)
      moreover have "task_state s3 w = TASK_READY"
        using w dw by (simp add: s3_def task_set_state_self)
      moreover have "blocked_on (all_tasks s3 ! w) = None"
        "held_mutexes (all_tasks s3 ! w) = held_mutexes (all_tasks s2 ! w) @ [m]"
        using w by (simp_all add: s3_def d_def task_add_held_mutex_def len)
      ultimately show ?thesis by simp
    qed
    from u m3 oth slf Cons show ?thesis by auto
  qed
  from held mx tail show "let s1 = task_remove_held_mutex s t m;
        s2 = (if priority_inheritance_enabled s then priority_restore s1 t else s1)
    in held_mutexes (all_tasks s1 ! t) = remove1 m (held_mutexes (all_tasks s ! t)) \<and>
       mutexes s2 = mutexes s \<and>
       (case wait_queue (mutexes s ! m) of
          [] \<Rightarrow> mutex_unlock s m t =
                 scheduler_schedule (upd_mutex s2 m (\<lambda>mx. mx\<lparr>locked := False, owner := None\<rparr>))
        | w # rest \<Rightarrow>
            (\<exists>s3. mutex_unlock s m t = scheduler_schedule s3 \<and>
                  mutexes s3 = (mutexes s)[m := (mutexes s ! m)\<lparr>wait_queue := rest, owner := Some w\<rparr>] \<and>
                  (\<forall>u. u \<noteq> w \<longrightarrow> all_tasks s3 ! u = all_tasks s2 ! u) \<and>
                  (w < length (all_tasks s) \<longrightarrow>
                     blocked_on (all_tasks s3 ! w) = None \<and>
                     held_mutexes (all_tasks s3 ! w) = held_mutexes (all_tasks s2 ! w) @ [m] \<and>
                     task_state s3 w = TASK_READY \<and>
                     (task_state s2 w \<noteq> TASK_READY \<and> length (ready_queue s2) < MAX_READY_TASKS
                        \<longrightarrow> w \<in> set (ready_queue s3)))))"
    unfolding Let_def s1_def [symmetric] s2_def [symmetric] by simp
qed

lemma mutex_unlock_steps_chain:
  "0 < length (mutexes chain_state) \<and> 1 < length (all_tasks chain_state) \<and>
   owner (mutexes chain_state ! 0) = Some 1 \<and>
   wait_queue (mutexes chain_state ! 0) = [2] \<and>
   (\<exists>s3. mutex_unlock chain_state 0 1 = scheduler_schedule s3 \<and>
         owner (mutexes s3 ! 0) = Some 2 \<and> wait_queue (mutexes s3 ! 0) = [] \<and>
         locked (mutexes s3 ! 0) \<and>
         blocked_on (all_tasks s3 ! 2) = None \<and> task_state s3 2 = TASK_READY)"
proof -
  have h: "0 < length (mutexes chain_state) \<and> 1 < length (all_tasks chain_state) \<and>
     owner (mutexes chain_state ! 0) = Some 1"
    by code_simp
  have q: "wait_queue (mutexes chain_state ! 0) = [2]" "2 < length (all_tasks chain_state)"
    "locked (mutexes chain_state ! 0)"
    by code_simp+
  from mutex_unlock_steps [of 0 chain_state 1, rule_format, OF h]
  obtain s3 where "mutex_unlock chain_state 0 1 = scheduler_schedule s3"
    "mutexes s3 = (mutexes chain_state)[0 := (mutexes chain_state ! 0)\<lparr>wait_queue := [], owner := Some 2\<rparr>]"
    "blocked_on (all_tasks s3 ! 2) = None" "task_state s3 2 = TASK_READY"
    unfolding Let_def q using q(2) by auto
  with h q show ?thesis by auto
qed

section \<open>The dispatcher (C7)\<close>

lemma mset_insert_by_priority [simp]:
  "mset (insert_by_priority pr t xs) = add_mset t (mset xs)"
  by (induction xs) simp_all

lemma set_insert_by_priority [simp]:
  "set (insert_by_priority pr t xs) = insert t (set xs)"
  by (induction xs) auto

lemma length_insert_by_priority [simp]:
  "length (insert_by_priority pr t xs) = Suc (length xs)"
  by (induction xs) simp_all

lemma scheduler_next_def2:
  "scheduler_get_next_task s = (case ready_queue s of [] \<Rightarrow> idle_task s | h # _ \<Rightarrow> Some h)"
  by (simp add: scheduler_get_next_task_def ready_queue_peek_def split: list.splits)

lemma context_switch_idle_or_blocked:
  assumes "n < length (all_tasks s)" "cur \<noteq> Some n"
    "cur = None \<or> (\<exists>c. cur = Some c \<and> task_state s c \<noteq> TASK_RUNNING)"
  shows "scheduler_context_switch s cur (Some n) =
         (upd_task (ready_queue_remove s n) n (\<lambda>tk. tk\<lparr>state := TASK_RUNNING\<rparr>))
           \<lparr>current_task := Some n, context_switches := context_switches s + 1\<rparr>"
  using assms by (auto simp: scheduler_context_switch_def Let_def)

lemma context_switch_preempt:
  assumes "n < length (all_tasks s)" "c < length (all_tasks s)" "c \<noteq> n"
    "task_state s c = TASK_RUNNING" "length (ready_queue s) < MAX_READY_TASKS"
  defines "s' \<equiv> scheduler_context_switch s (Some c) (Some n)"
  shows "task_state s' c = TASK_READY" "c \<in> set (ready_queue s')"
    "preemptions (all_tasks s' ! c) = preemptions (all_tasks s ! c) + 1"
    "ready_since (all_tasks s' ! c) = system_ticks s"
    "mset (ready_queue s') = mset (ready_queue s) + {#c#} - {#n#}"
    "task_state s' n = TASK_RUNNING" "current_task s' = Some n"
    "context_switches s' = context_switches s + 1"
    "\<forall>u. u \<noteq> c \<and> u \<noteq> n \<longrightarrow> all_tasks s' ! u = all_tasks s ! u"
  using assms(1-5) unfolding s'_def
  by (auto simp: scheduler_context_switch_def Let_def task_state_def ready_queue_insert_def
                 ready_queue_remove_def upd_task_def)


text \<open>
  C7. \<open>scheduler_schedule\<close> takes as next task the head of the ready queue, or the idle
  task when the queue is empty. It changes nothing when next is the current task, and
  nothing when the current task is Running and next's priority number is not smaller
  (ties keep the incumbent). When the current task is Running and next is strictly
  higher, the current task becomes Ready, is put into the ready queue (which has room,
  as the displaced task was not in it) with one more preemption counted, and next
  leaves the ready queue, becomes Running and current, with one more context switch.
  When there is no current task, or it is not Running, next is dispatched alone.
\<close>

theorem scheduler_schedule_dispatch:
  "(let next = (case ready_queue s of [] \<Rightarrow> idle_task s | h # _ \<Rightarrow> Some h);
        cur = current_task s; s' = scheduler_schedule s
    in (next = cur \<longrightarrow> s' = s) \<and>
       (\<forall>c n. cur = Some c \<and> next = Some n \<and> task_state s c = TASK_RUNNING \<and>
              task_priority s n \<ge> task_priority s c \<longrightarrow> s' = s) \<and>
       (\<forall>c n. cur = Some c \<and> next = Some n \<and> task_state s c = TASK_RUNNING \<and>
              task_priority s n < task_priority s c \<and>
              c < length (all_tasks s) \<and> n < length (all_tasks s) \<and>
              length (ready_queue s) < MAX_READY_TASKS \<longrightarrow>
              task_state s' c = TASK_READY \<and> c \<in> set (ready_queue s') \<and>
              preemptions (all_tasks s' ! c) = preemptions (all_tasks s ! c) + 1 \<and>
              mset (ready_queue s') = mset (ready_queue s) + {#c#} - {#n#} \<and>
              task_state s' n = TASK_RUNNING \<and> current_task s' = Some n \<and>
              context_switches s' = context_switches s + 1 \<and>
              (\<forall>u. u \<noteq> c \<and> u \<noteq> n \<longrightarrow> all_tasks s' ! u = all_tasks s ! u)) \<and>
       (\<forall>n. next = Some n \<and> cur \<noteq> Some n \<and> n < length (all_tasks s) \<and>
            (cur = None \<or> (\<exists>c. cur = Some c \<and> task_state s c \<noteq> TASK_RUNNING)) \<longrightarrow>
            ready_queue s' = remove1 n (ready_queue s) \<and>
            task_state s' n = TASK_RUNNING \<and> current_task s' = Some n \<and>
            context_switches s' = context_switches s + 1 \<and>
            (\<forall>u. u \<noteq> n \<longrightarrow> all_tasks s' ! u = all_tasks s ! u)))"
proof -
  let ?next = "case ready_queue s of [] \<Rightarrow> idle_task s | h # _ \<Rightarrow> Some h"
  have nx: "scheduler_get_next_task s = ?next" by (rule scheduler_next_def2)
  have 1: "?next = current_task s \<longrightarrow> scheduler_schedule s = s"
    by (simp add: scheduler_schedule_def nx Let_def)
  have 2: "scheduler_schedule s = s"
    if "current_task s = Some c" "?next = Some n" "task_state s c = TASK_RUNNING"
       "task_priority s n \<ge> task_priority s c" for c n
    using that by (simp add: scheduler_schedule_def nx Let_def)
  have 3: "task_state (scheduler_schedule s) c = TASK_READY \<and>
           c \<in> set (ready_queue (scheduler_schedule s)) \<and>
           preemptions (all_tasks (scheduler_schedule s) ! c) = preemptions (all_tasks s ! c) + 1 \<and>
           mset (ready_queue (scheduler_schedule s)) = mset (ready_queue s) + {#c#} - {#n#} \<and>
           task_state (scheduler_schedule s) n = TASK_RUNNING \<and>
           current_task (scheduler_schedule s) = Some n \<and>
           context_switches (scheduler_schedule s) = context_switches s + 1 \<and>
           (\<forall>u. u \<noteq> c \<and> u \<noteq> n \<longrightarrow> all_tasks (scheduler_schedule s) ! u = all_tasks s ! u)"
    if h: "current_task s = Some c" "?next = Some n" "task_state s c = TASK_RUNNING"
       "task_priority s n < task_priority s c"
       "c < length (all_tasks s)" "n < length (all_tasks s)"
       "length (ready_queue s) < MAX_READY_TASKS" for c n
  proof -
    from h(4) have ne: "c \<noteq> n" by auto
    with h have "scheduler_schedule s = scheduler_context_switch s (Some c) (Some n)"
      by (simp add: scheduler_schedule_def nx Let_def)
    with context_switch_preempt [OF h(6) h(5) ne h(3) h(7)] show ?thesis by simp
  qed
  have 4: "ready_queue (scheduler_schedule s) = remove1 n (ready_queue s) \<and>
           task_state (scheduler_schedule s) n = TASK_RUNNING \<and>
           current_task (scheduler_schedule s) = Some n \<and>
           context_switches (scheduler_schedule s) = context_switches s + 1 \<and>
           (\<forall>u. u \<noteq> n \<longrightarrow> all_tasks (scheduler_schedule s) ! u = all_tasks s ! u)"
    if h: "?next = Some n" "current_task s \<noteq> Some n" "n < length (all_tasks s)"
       "current_task s = None \<or> (\<exists>c. current_task s = Some c \<and> task_state s c \<noteq> TASK_RUNNING)"
    for n
  proof -
    from h have "scheduler_schedule s = scheduler_context_switch s (current_task s) (Some n)"
      by (auto simp: scheduler_schedule_def nx Let_def)
    with context_switch_idle_or_blocked [OF h(3) h(2) h(4)] h(3) show ?thesis
      by (simp add: task_state_def)
  qed
  show ?thesis
    unfolding Let_def
  proof (intro conjI allI impI)
    show "?next = current_task s \<Longrightarrow> scheduler_schedule s = s" using 1 by simp
  next
    fix c n
    assume "current_task s = Some c \<and> ?next = Some n \<and> task_state s c = TASK_RUNNING \<and>
              task_priority s n \<ge> task_priority s c"
    then show "scheduler_schedule s = s" using 2 [of c n] by simp
  qed (use 3 4 in \<open>(elim conjE, simp; fail)+\<close>)
qed


theorem scheduler_schedule_dispatch_witness:
  "scheduler_schedule chain_state = chain_state \<and>
   current_task (scheduler_schedule (task_create chain_state 3 0 0 5)) = Some 3 \<and>
   task_state (scheduler_schedule (task_create chain_state 3 0 0 5)) 1 = TASK_READY \<and>
   current_task (scheduler_schedule (scheduler_init SCHED_PRIORITY False)) = Some 0"
proof -
  let ?s = "task_create chain_state 3 0 0 5"
  let ?i = "scheduler_init SCHED_PRIORITY False"
  have a: "ready_queue chain_state = []" "idle_task chain_state = Some 0"
    "current_task chain_state = Some 1" "task_state chain_state 1 = TASK_RUNNING"
    "task_priority chain_state 0 \<ge> task_priority chain_state 1"
    by code_simp+
  have b: "ready_queue ?s = [3]" "current_task ?s = Some 1" "task_state ?s 1 = TASK_RUNNING"
    "task_priority ?s 3 < task_priority ?s 1" "1 < length (all_tasks ?s)"
    "3 < length (all_tasks ?s)" "length (ready_queue ?s) < MAX_READY_TASKS"
    by code_simp+
  have c: "ready_queue ?i = []" "idle_task ?i = Some 0" "current_task ?i = None"
    "0 < length (all_tasks ?i)"
    by code_simp+
  have "scheduler_schedule chain_state = chain_state"
    using scheduler_schedule_dispatch [of chain_state, unfolded Let_def, THEN conjunct2,
               THEN conjunct1, rule_format, of 1 0] a
    by simp
  moreover have "current_task (scheduler_schedule ?s) = Some 3 \<and>
      task_state (scheduler_schedule ?s) 1 = TASK_READY"
    using scheduler_schedule_dispatch [of ?s, unfolded Let_def, THEN conjunct2,
               THEN conjunct2, THEN conjunct1, rule_format, of 1 3] b
    by simp
  moreover have "current_task (scheduler_schedule ?i) = Some 0"
    using scheduler_schedule_dispatch [of ?i, unfolded Let_def, THEN conjunct2,
               THEN conjunct2, THEN conjunct2, rule_format, of 0] c
    by simp
  ultimately show ?thesis by simp
qed

section \<open>The deadline pass (C9)\<close>

lemma check_deadline_task_frame [simp]:
  "idle_task (check_deadline_task s i) = idle_task s"
  "system_ticks (check_deadline_task s i) = system_ticks s"
  "length (all_tasks (check_deadline_task s i)) = length (all_tasks s)"
  by (simp_all add: check_deadline_task_def)

lemma fold_check_deadline_task:
  "idle_task (fold (\<lambda>i s'. check_deadline_task s' i) js s) = idle_task s \<and>
   system_ticks (fold (\<lambda>i s'. check_deadline_task s' i) js s) = system_ticks s \<and>
   length (all_tasks (fold (\<lambda>i s'. check_deadline_task s' i) js s)) = length (all_tasks s) \<and>
   (distinct js \<longrightarrow> j < length (all_tasks s) \<longrightarrow>
      all_tasks (fold (\<lambda>i s'. check_deadline_task s' i) js s) ! j =
        (if j \<in> set js \<and> Some j \<noteq> idle_task s
         then deadline_check (system_ticks s) (all_tasks s ! j) else all_tasks s ! j))"
proof (induction js arbitrary: s)
  case Nil
  show ?case by simp
next
  case (Cons i js)
  from Cons.IH [of "check_deadline_task s i"] show ?case
    by (auto simp: check_deadline_task_def)
qed

lemma check_deadlines_nth:
  "j < length (all_tasks s) \<Longrightarrow>
   all_tasks (check_deadlines s) ! j =
     (if Some j = idle_task s then all_tasks s ! j
      else deadline_check (system_ticks s) (all_tasks s ! j))"
  using fold_check_deadline_task [of "[0..<length (all_tasks s)]" s j]
  by (simp add: check_deadlines_def)

lemma deadline_check_sentinel:
  "absolute_deadline tk = UINT64_MAX \<Longrightarrow> deadline_check now tk = tk"
  by (simp add: deadline_check_def UINT64_MAX_def)


text \<open>
  C9, as the code has it. In the deadline pass, for a task that is not the idle task,
  is Running or Ready and has \<open>absolute_deadline > 0\<close>: a deadline equal to the current
  tick changes nothing; a deadline strictly before the current tick with work
  remaining counts one miss and sets the deadline to \<open>UINT64_MAX\<close>, unless the task has
  neither period nor relative deadline, in which case the pass skips it. A task whose
  deadline is \<open>UINT64_MAX\<close> is left alone by the pass at every tick, so a window counts
  at most one miss.
\<close>

theorem check_deadlines_miss:
  "j < length (all_tasks s) \<and> Some j \<noteq> idle_task s \<and>
   (state (all_tasks s ! j) = TASK_RUNNING \<or> state (all_tasks s ! j) = TASK_READY) \<and>
   0 < absolute_deadline (all_tasks s ! j) \<longrightarrow>
     (system_ticks s = absolute_deadline (all_tasks s ! j) \<longrightarrow>
        all_tasks (check_deadlines s) ! j = all_tasks s ! j) \<and>
     (absolute_deadline (all_tasks s ! j) < system_ticks s \<and>
      0 < remaining_work (all_tasks s ! j) \<and>
      \<not> (period (all_tasks s ! j) = 0 \<and> relative_deadline (all_tasks s ! j) = 0) \<longrightarrow>
        deadline_misses (all_tasks (check_deadlines s) ! j)
          = deadline_misses (all_tasks s ! j) + 1 \<and>
        absolute_deadline (all_tasks (check_deadlines s) ! j) = UINT64_MAX \<and>
        (\<forall>s2. j < length (all_tasks s2) \<and>
              absolute_deadline (all_tasks s2 ! j) = UINT64_MAX \<longrightarrow>
              all_tasks (check_deadlines s2) ! j = all_tasks s2 ! j)) \<and>
     (period (all_tasks s ! j) = 0 \<and> relative_deadline (all_tasks s ! j) = 0 \<longrightarrow>
        all_tasks (check_deadlines s) ! j = all_tasks s ! j)"
proof -
  have "all_tasks (check_deadlines s2) ! j = all_tasks s2 ! j"
    if "j < length (all_tasks s2)" "absolute_deadline (all_tasks s2 ! j) = UINT64_MAX" for s2
    using that by (simp add: check_deadlines_nth deadline_check_sentinel)
  then show ?thesis
    by (simp add: check_deadlines_nth deadline_check_def)
qed

theorem check_deadlines_miss_witness:
  "all_tasks (check_deadlines late_state) ! 1 = all_tasks late_state ! 1 \<and>
   deadline_misses (all_tasks (check_deadlines (late_state\<lparr>system_ticks := 5\<rparr>)) ! 1) = 1 \<and>
   absolute_deadline (all_tasks (check_deadlines (late_state\<lparr>system_ticks := 5\<rparr>)) ! 1)
     = UINT64_MAX \<and>
   all_tasks (check_deadlines late_state) ! 3 = all_tasks late_state ! 3"
proof -
  let ?s = "late_state\<lparr>system_ticks := 5\<rparr>"
  have a: "1 < length (all_tasks late_state) \<and> Some 1 \<noteq> idle_task late_state \<and>
     (state (all_tasks late_state ! 1) = TASK_RUNNING \<or>
      state (all_tasks late_state ! 1) = TASK_READY) \<and>
     0 < absolute_deadline (all_tasks late_state ! 1)"
    "system_ticks late_state = absolute_deadline (all_tasks late_state ! 1)"
    by code_simp+
  have b: "1 < length (all_tasks ?s) \<and> Some 1 \<noteq> idle_task ?s \<and>
     (state (all_tasks ?s ! 1) = TASK_RUNNING \<or> state (all_tasks ?s ! 1) = TASK_READY) \<and>
     0 < absolute_deadline (all_tasks ?s ! 1)"
    "absolute_deadline (all_tasks ?s ! 1) < system_ticks ?s \<and>
      0 < remaining_work (all_tasks ?s ! 1) \<and>
      \<not> (period (all_tasks ?s ! 1) = 0 \<and> relative_deadline (all_tasks ?s ! 1) = 0)"
    "deadline_misses (all_tasks ?s ! 1) = 0"
    by code_simp+
  have c: "3 < length (all_tasks late_state) \<and> Some 3 \<noteq> idle_task late_state \<and>
     (state (all_tasks late_state ! 3) = TASK_RUNNING \<or>
      state (all_tasks late_state ! 3) = TASK_READY) \<and>
     0 < absolute_deadline (all_tasks late_state ! 3)"
    "period (all_tasks late_state ! 3) = 0 \<and> relative_deadline (all_tasks late_state ! 3) = 0"
    by code_simp+
  note eq = check_deadlines_miss [of 1 late_state, rule_format, OF a(1), THEN conjunct1,
      rule_format, OF a(2)]
  note miss = check_deadlines_miss [of 1 ?s, rule_format, OF b(1), THEN conjunct2,
      THEN conjunct1, rule_format, OF b(2)]
  note skip = check_deadlines_miss [of 3 late_state, rule_format, OF c(1), THEN conjunct2,
      THEN conjunct2, rule_format, OF c(2)]
  from eq miss skip b(3) show ?thesis by simp
qed

text \<open>
  The claim as written counts a miss for every Running or Ready task with a positive
  deadline behind the current tick and work remaining. Task 3 of \<open>late_state\<close> is such
  a task, and neither the pass nor a whole tick counts a miss for it.
\<close>

theorem check_deadlines_aperiodic_counterexample:
  "3 < length (all_tasks late_state) \<and> Some 3 \<noteq> idle_task late_state \<and>
   state (all_tasks late_state ! 3) = TASK_READY \<and>
   0 < absolute_deadline (all_tasks late_state ! 3) \<and>
   absolute_deadline (all_tasks late_state ! 3) < system_ticks late_state \<and>
   0 < remaining_work (all_tasks late_state ! 3) \<and>
   deadline_misses (all_tasks (check_deadlines late_state) ! 3)
     \<noteq> deadline_misses (all_tasks late_state ! 3) + 1 \<and>
   deadline_misses (all_tasks (tick_handler late_state) ! 3)
     \<noteq> deadline_misses (all_tasks late_state ! 3) + 1"
  by code_simp

section \<open>Rate-monotonic priorities (C10)\<close>

lemma assign_ranks_frame [simp]:
  "idle_task (assign_ranks s k ts) = idle_task s"
  "ready_queue (assign_ranks s k ts) = ready_queue s"
  "length (all_tasks (assign_ranks s k ts)) = length (all_tasks s)"
  "policy (assign_ranks s k ts) = policy s"
  "priority_inheritance_enabled (assign_ranks s k ts) = priority_inheritance_enabled s"
  "current_task (assign_ranks s k ts) = current_task s"
  "system_ticks (assign_ranks s k ts) = system_ticks s"
  "context_switches (assign_ranks s k ts) = context_switches s"
  "mutexes (assign_ranks s k ts) = mutexes s"
  "semaphores (assign_ranks s k ts) = semaphores s"
  by (induction ts arbitrary: s k; simp)+

lemma assign_ranks_other:
  "u \<notin> set ts \<Longrightarrow> all_tasks (assign_ranks s k ts) ! u = all_tasks s ! u"
  by (induction ts arbitrary: s k) simp_all

lemma assign_ranks_view:
  "(\<And>tk a b. v (tk\<lparr>priority := a, original_priority := b\<rparr>) = v tk) \<Longrightarrow>
   map v (all_tasks (assign_ranks s k ts)) = map v (all_tasks s)"
  by (induction ts arbitrary: s k) (simp_all add: upd_task_view)

lemma assign_ranks_nth:
  "distinct ts \<Longrightarrow> j < length ts \<Longrightarrow> ts ! j < length (all_tasks s) \<Longrightarrow>
   priority (all_tasks (assign_ranks s k ts) ! (ts ! j)) = int (k + j) \<and>
   original_priority (all_tasks (assign_ranks s k ts) ! (ts ! j)) = int (k + j)"
proof (induction ts arbitrary: s k j)
  case Nil
  then show ?case by simp
next
  case (Cons t ts)
  show ?case
  proof (cases j)
    case 0
    with Cons.prems show ?thesis by (simp add: assign_ranks_other)
  next
    case (Suc i)
    with Cons.prems Cons.IH [of i "upd_task s t (\<lambda>tk. tk\<lparr>priority := int k, original_priority := int k\<rparr>)" "Suc k"]
    show ?thesis by simp
  qed
qed

lemma insert_by_priority_position:
  "insert_by_priority pr t xs =
     takeWhile (\<lambda>x. pr x \<le> pr t) xs @ t # dropWhile (\<lambda>x. pr x \<le> pr t) xs"
  by (induction xs) auto

lemma sorted_insert_by_priority:
  "sorted (map pr xs) \<Longrightarrow> sorted (map pr (insert_by_priority pr t xs))"
  by (induction xs) auto

lemma distinct_insert_by_priority:
  "distinct xs \<Longrightarrow> t \<notin> set xs \<Longrightarrow> distinct (insert_by_priority pr t xs)"
  by (induction xs) auto

lemma rebuild_step_frame [simp]:
  "all_tasks (rebuild_step s i) = all_tasks s"
  "idle_task (rebuild_step s i) = idle_task s"
  "policy (rebuild_step s i) = policy s"
  "priority_inheritance_enabled (rebuild_step s i) = priority_inheritance_enabled s"
  "current_task (rebuild_step s i) = current_task s"
  "system_ticks (rebuild_step s i) = system_ticks s"
  "context_switches (rebuild_step s i) = context_switches s"
  "mutexes (rebuild_step s i) = mutexes s"
  "semaphores (rebuild_step s i) = semaphores s"
  "task_priority (rebuild_step s i) = task_priority s"
  "task_state (rebuild_step s i) = task_state s"
  by (simp_all add: rebuild_step_def)

lemma rebuild_prefix:
  assumes "n \<le> MAX_READY_TASKS"
  shows "(let r = fold (\<lambda>i s'. rebuild_step s' i) [0..<n] (s\<lparr>ready_queue := []\<rparr>)
          in all_tasks r = all_tasks s \<and> idle_task r = idle_task s \<and> policy r = policy s \<and>
             priority_inheritance_enabled r = priority_inheritance_enabled s \<and>
             current_task r = current_task s \<and> system_ticks r = system_ticks s \<and>
             context_switches r = context_switches s \<and> mutexes r = mutexes s \<and>
             semaphores r = semaphores s \<and>
             distinct (ready_queue r) \<and> length (ready_queue r) \<le> n \<and>
             sorted (map (task_priority s) (ready_queue r)) \<and>
             set (ready_queue r) =
               {i. i < n \<and> state (all_tasks s ! i) = TASK_READY \<and> Some i \<noteq> idle_task s})"
  using assms
proof (induction n)
  case 0
  show ?case by simp
next
  case (Suc n)
  define r where "r = fold (\<lambda>i s'. rebuild_step s' i) [0..<n] (s\<lparr>ready_queue := []\<rparr>)"
  have ih: "all_tasks r = all_tasks s" "idle_task r = idle_task s" "policy r = policy s"
     "priority_inheritance_enabled r = priority_inheritance_enabled s"
     "current_task r = current_task s" "system_ticks r = system_ticks s"
     "context_switches r = context_switches s" "mutexes r = mutexes s"
     "semaphores r = semaphores s"
     "distinct (ready_queue r)" "length (ready_queue r) \<le> n"
     "sorted (map (task_priority s) (ready_queue r))"
     "set (ready_queue r) =
               {i. i < n \<and> state (all_tasks s ! i) = TASK_READY \<and> Some i \<noteq> idle_task s}"
    using Suc unfolding r_def Let_def by simp_all
  have tp: "task_priority r = task_priority s"
    by (simp add: task_priority_def fun_eq_iff ih)
  have nin: "n \<notin> set (ready_queue r)" using ih by simp
  have room: "length (ready_queue r) < MAX_READY_TASKS" using ih Suc.prems by simp
  have f: "fold (\<lambda>i s'. rebuild_step s' i) [0..<Suc n] (s\<lparr>ready_queue := []\<rparr>) = rebuild_step r n"
    by (simp add: r_def)
  show ?case
    unfolding f Let_def
    using ih nin room
    by (auto simp: rebuild_step_def ready_queue_insert_def tp sorted_insert_by_priority
                   distinct_insert_by_priority less_Suc_eq)
qed

lemma rebuild_ready_queue_result:
  assumes "length (all_tasks s) \<le> MAX_ALL_TASKS"
  shows "all_tasks (rebuild_ready_queue s) = all_tasks s"
    "idle_task (rebuild_ready_queue s) = idle_task s"
    "distinct (ready_queue (rebuild_ready_queue s))"
    "sorted (map (task_priority s) (ready_queue (rebuild_ready_queue s)))"
    "set (ready_queue (rebuild_ready_queue s)) =
       {i. i < length (all_tasks s) \<and> state (all_tasks s ! i) = TASK_READY
           \<and> Some i \<noteq> idle_task s}"
  using rebuild_prefix [of "length (all_tasks s)" s] assms
  unfolding rebuild_ready_queue_def Let_def MAX_ALL_TASKS_def MAX_READY_TASKS_def
  by simp_all


lemma cmp_period_le:
  "period a > 0 \<Longrightarrow> period b > 0 \<Longrightarrow> cmp_period a b \<le> 0 \<longleftrightarrow> period a \<le> period b"
  by (auto simp: cmp_period_def)

lemma set_periodic_tasks:
  "set (periodic_tasks s) =
     {i. i < length (all_tasks s) \<and> period (all_tasks s ! i) > 0 \<and>
         state (all_tasks s ! i) \<noteq> TASK_TERMINATED \<and> Some i \<noteq> idle_task s}"
  by (auto simp: periodic_tasks_def)

text \<open>
  C10. Let \<open>qsort\<close> meet its contract on the array of periodic tasks and let the registry
  hold at most \<open>MAX_ALL_TASKS\<close> tasks. After \<open>rms_recalculate_priorities\<close> the sorted
  array lists exactly the tasks that are not idle, not terminated and have
  \<open>period > 0\<close>, each once, in ascending order of period; the task at index \<open>k\<close> of it has
  \<open>priority = original_priority = k\<close>; of two such tasks the one with the strictly
  shorter period has the strictly smaller priority number; no other task changes; and
  the ready queue holds exactly the Ready tasks other than the idle task, each once.
\<close>

theorem rms_recalculate_ranks:
  "qsort_contract qsort s \<and> length (all_tasks s) \<le> MAX_ALL_TASKS \<longrightarrow>
   (let ranked = qsort (\<lambda>a b. cmp_period (all_tasks s ! a) (all_tasks s ! b)) (periodic_tasks s);
        s' = rms_recalculate_priorities qsort s
    in distinct ranked \<and>
       set ranked = {i. i < length (all_tasks s) \<and> period (all_tasks s ! i) > 0 \<and>
                        state (all_tasks s ! i) \<noteq> TASK_TERMINATED \<and> Some i \<noteq> idle_task s} \<and>
       sorted (map (\<lambda>i. period (all_tasks s ! i)) ranked) \<and>
       (\<forall>k < length ranked.
          priority (all_tasks s' ! (ranked ! k)) = int k \<and>
          original_priority (all_tasks s' ! (ranked ! k)) = int k) \<and>
       (\<forall>i \<in> set ranked. \<forall>j \<in> set ranked.
          period (all_tasks s ! i) < period (all_tasks s ! j) \<longrightarrow>
          priority (all_tasks s' ! i) < priority (all_tasks s' ! j)) \<and>
       (\<forall>u. u \<notin> set ranked \<longrightarrow> all_tasks s' ! u = all_tasks s ! u) \<and>
       map period (all_tasks s') = map period (all_tasks s) \<and>
       map state (all_tasks s') = map state (all_tasks s) \<and>
       distinct (ready_queue s') \<and>
       set (ready_queue s') = {i. i < length (all_tasks s) \<and>
                                  state (all_tasks s ! i) = TASK_READY \<and> Some i \<noteq> idle_task s})"
proof (intro impI)
  assume a: "qsort_contract qsort s \<and> length (all_tasks s) \<le> MAX_ALL_TASKS"
  define ranked where
    "ranked = qsort (\<lambda>a b. cmp_period (all_tasks s ! a) (all_tasks s ! b)) (periodic_tasks s)"
  define s1 where "s1 = assign_ranks s 0 ranked"
  have ms: "mset ranked = mset (periodic_tasks s)"
    and so: "sorted_wrt (\<lambda>a b. cmp_period (all_tasks s ! a) (all_tasks s ! b) \<le> 0) ranked"
    using a by (simp_all add: qsort_contract_def Let_def ranked_def)
  have dp: "distinct (periodic_tasks s)" by (simp add: periodic_tasks_def)
  have d: "distinct ranked" using ms dp by (metis mset_eq_imp_distinct_iff)
  have st: "set ranked = set (periodic_tasks s)" using ms by (rule mset_eq_setD)
  have per: "period (all_tasks s ! i) > 0" "i < length (all_tasks s)" if "i \<in> set ranked" for i
    using that st by (simp_all add: set_periodic_tasks)
  have sp: "sorted_wrt (\<lambda>a b. period (all_tasks s ! a) \<le> period (all_tasks s ! b)) ranked"
    using so per by (auto simp: sorted_wrt_iff_nth_less cmp_period_le)
  then have sm: "sorted (map (\<lambda>i. period (all_tasks s ! i)) ranked)"
    by (simp add: sorted_map)
  have rk: "priority (all_tasks s1 ! (ranked ! k)) = int k \<and>
            original_priority (all_tasks s1 ! (ranked ! k)) = int k" if "k < length ranked" for k
    using assign_ranks_nth [OF d that, of s 0] per(2) [of "ranked ! k"] that
    by (simp add: s1_def)
  have lt: "priority (all_tasks s1 ! i) < priority (all_tasks s1 ! j)"
    if "i \<in> set ranked" "j \<in> set ranked" "period (all_tasks s ! i) < period (all_tasks s ! j)"
    for i j
  proof -
    from that obtain k l where k: "k < length ranked" "ranked ! k = i"
      and l: "l < length ranked" "ranked ! l = j"
      by (auto simp: in_set_conv_nth)
    have "k < l"
    proof (rule ccontr)
      assume "\<not> k < l"
      then have "l = k \<or> l < k" by auto
      then have "period (all_tasks s ! j) \<le> period (all_tasks s ! i)"
        using sp k l by (auto simp: sorted_wrt_iff_nth_less)
      with that(3) show False by simp
    qed
    with rk [OF k(1)] rk [OF l(1)] k l show ?thesis by simp
  qed
  have oth: "all_tasks s1 ! u = all_tasks s ! u" if "u \<notin> set ranked" for u
    using that by (simp add: s1_def assign_ranks_other)
  have vp: "map period (all_tasks s1) = map period (all_tasks s)"
    and vs: "map state (all_tasks s1) = map state (all_tasks s)"
    by (simp_all add: s1_def assign_ranks_view)
  have len: "length (all_tasks s1) = length (all_tasks s)" by (simp add: s1_def)
  have sn: "state (all_tasks s1 ! i) = state (all_tasks s ! i)" if "i < length (all_tasks s)" for i
    using view_nth [OF vs that] .
  have s': "rms_recalculate_priorities qsort s = rebuild_ready_queue s1"
    by (simp add: rms_recalculate_priorities_def Let_def s1_def ranked_def)
  have rb: "all_tasks (rebuild_ready_queue s1) = all_tasks s1"
    "distinct (ready_queue (rebuild_ready_queue s1))"
    "set (ready_queue (rebuild_ready_queue s1)) =
       {i. i < length (all_tasks s1) \<and> state (all_tasks s1 ! i) = TASK_READY
           \<and> Some i \<noteq> idle_task s1}"
    using rebuild_ready_queue_result [of s1] a len by simp_all
  have rq: "set (ready_queue (rebuild_ready_queue s1)) =
       {i. i < length (all_tasks s) \<and> state (all_tasks s ! i) = TASK_READY
           \<and> Some i \<noteq> idle_task s}"
    unfolding rb(3) using sn len by (auto simp: s1_def)
  show "let ranked = qsort (\<lambda>a b. cmp_period (all_tasks s ! a) (all_tasks s ! b)) (periodic_tasks s);
        s' = rms_recalculate_priorities qsort s
    in distinct ranked \<and>
       set ranked = {i. i < length (all_tasks s) \<and> period (all_tasks s ! i) > 0 \<and>
                        state (all_tasks s ! i) \<noteq> TASK_TERMINATED \<and> Some i \<noteq> idle_task s} \<and>
       sorted (map (\<lambda>i. period (all_tasks s ! i)) ranked) \<and>
       (\<forall>k < length ranked.
          priority (all_tasks s' ! (ranked ! k)) = int k \<and>
          original_priority (all_tasks s' ! (ranked ! k)) = int k) \<and>
       (\<forall>i \<in> set ranked. \<forall>j \<in> set ranked.
          period (all_tasks s ! i) < period (all_tasks s ! j) \<longrightarrow>
          priority (all_tasks s' ! i) < priority (all_tasks s' ! j)) \<and>
       (\<forall>u. u \<notin> set ranked \<longrightarrow> all_tasks s' ! u = all_tasks s ! u) \<and>
       map period (all_tasks s') = map period (all_tasks s) \<and>
       map state (all_tasks s') = map state (all_tasks s) \<and>
       distinct (ready_queue s') \<and>
       set (ready_queue s') = {i. i < length (all_tasks s) \<and>
                                  state (all_tasks s ! i) = TASK_READY \<and> Some i \<noteq> idle_task s}"
    unfolding Let_def ranked_def [symmetric] s' rb(1)
    using d st sm rk lt oth vp vs rb(2) rq
    by (simp add: set_periodic_tasks)
qed


theorem rms_recalculate_ranks_witness:
  "qsort_contract insort_by rm_state \<and> length (all_tasks rm_state) \<le> MAX_ALL_TASKS \<and>
   priority (all_tasks (rms_recalculate_priorities insort_by rm_state) ! 3) = 1 \<and>
   original_priority (all_tasks (rms_recalculate_priorities insort_by rm_state) ! 3) = 1 \<and>
   period (all_tasks rm_state ! 3) < period (all_tasks rm_state ! 2) \<and>
   priority (all_tasks (rms_recalculate_priorities insort_by rm_state) ! 3)
     < priority (all_tasks (rms_recalculate_priorities insort_by rm_state) ! 2) \<and>
   set (ready_queue (rms_recalculate_priorities insort_by rm_state)) = {2, 3}"
proof -
  have h: "qsort_contract insort_by rm_state \<and> length (all_tasks rm_state) \<le> MAX_ALL_TASKS"
    by code_simp
  have r: "insort_by (\<lambda>a b. cmp_period (all_tasks rm_state ! a) (all_tasks rm_state ! b))
             (periodic_tasks rm_state) = [1, 3, 2]"
    by code_simp
  have p: "period (all_tasks rm_state ! 3) < period (all_tasks rm_state ! 2)"
    by code_simp
  have q: "{i. i < length (all_tasks rm_state) \<and> state (all_tasks rm_state ! i) = TASK_READY
               \<and> Some i \<noteq> idle_task rm_state} = {2, 3}"
  proof -
    have "length (all_tasks rm_state) = 4" "idle_task rm_state = Some 0"
      "map state (all_tasks rm_state) = [TASK_READY, TASK_RUNNING, TASK_READY, TASK_READY]"
      by code_simp+
    then show ?thesis
      by (auto simp: less_Suc_eq numeral_eq_Suc nth_Cons' map_eq_Cons_conv) 
  qed
  note th = rms_recalculate_ranks [of insort_by rm_state, rule_format, OF h, unfolded Let_def r]
  from th have "priority (all_tasks (rms_recalculate_priorities insort_by rm_state) ! ([1, 3, 2] ! 1)) = int 1 \<and>
      original_priority (all_tasks (rms_recalculate_priorities insort_by rm_state) ! ([1, 3, 2] ! 1)) = int 1"
    by (elim conjE allE [of _ 1]) simp
  moreover from th p
  have "priority (all_tasks (rms_recalculate_priorities insort_by rm_state) ! 3)
     < priority (all_tasks (rms_recalculate_priorities insort_by rm_state) ! 2)"
    by simp
  moreover from th q
  have "set (ready_queue (rms_recalculate_priorities insort_by rm_state)) = {2, 3}"
    by simp
  ultimately show ?thesis using h p by simp
qed

section \<open>The ready queue stays sorted (C8)\<close>

lemma sched_inv_same:
  assumes "sched_inv s" "ready_queue s' = ready_queue s" "current_task s' = current_task s"
    "idle_task s' = idle_task s" "map state (all_tasks s') = map state (all_tasks s)"
    "map priority (all_tasks s') = map priority (all_tasks s)"
  shows "sched_inv s'"
proof -
  have len: "length (all_tasks s') = length (all_tasks s)"
    using assms(5) by (metis length_map)
  have st: "task_state s' t = task_state s t" if "t < length (all_tasks s)" for t
    using view_nth [OF assms(5) that] by (simp add: task_state_def)
  have pr: "task_priority s' t = task_priority s t" if "t < length (all_tasks s)" for t
    using view_nth [OF assms(6) that] by (simp add: task_priority_def)
  have "map (task_priority s') (ready_queue s) = map (task_priority s) (ready_queue s)"
    using assms(1) pr by (simp add: sched_inv_def)
  then have "sorted (map (task_priority s') (ready_queue s))"
    using assms(1) by (simp only: sched_inv_def)
  with assms(1-4) len st show ?thesis by (simp add: sched_inv_def)
qed

lemma sched_inv_upd_task:
  assumes "sched_inv s" "\<And>tk. state (f tk) = state tk" "\<And>tk. priority (f tk) = priority tk"
  shows "sched_inv (upd_task s t f)"
  using assms(1) by (rule sched_inv_same) (simp_all add: upd_task_view assms)

lemma ready_queue_ready_queue_insert:
  "ready_queue (ready_queue_insert s t) =
     (if length (ready_queue s) \<ge> MAX_READY_TASKS then ready_queue s
      else insert_by_priority (task_priority s) t (ready_queue s))"
  by (simp add: ready_queue_insert_def)

lemma sched_inv_insert:
  assumes "sched_inv s" "t < length (all_tasks s)" "task_state s t = TASK_READY"
    "t \<notin> set (ready_queue s)"
  shows "sched_inv (ready_queue_insert s t)"
  using assms
  by (auto simp: sched_inv_def ready_queue_ready_queue_insert
                 sorted_insert_by_priority distinct_insert_by_priority)

lemma sorted_map_remove1: "sorted (map f xs) \<Longrightarrow> sorted (map f (remove1 x xs))"
  by (induction xs) (auto dest: notin_set_remove1)

lemma sched_inv_remove:
  assumes "sched_inv s"
  shows "sched_inv (ready_queue_remove s t)"
  using assms
  by (auto simp: sched_inv_def sorted_map_remove1 dest: notin_set_remove1)

text \<open>
  A task changes some fields, possibly its priority but not its state, and is then
  re-sorted: the queue without that task is in order before and after.
\<close>

lemma sched_inv_resort:
  assumes inv: "sched_inv s" and t: "t < length (all_tasks s)"
    and f: "\<And>tk. state (f tk) = state tk"
  shows "sched_inv (resort_ready (upd_task s t f) t)"
proof -
  let ?s1 = "upd_task s t f"
  have st: "task_state ?s1 = task_state s"
    by (auto simp: task_state_def fun_eq_iff f)
  have pr: "task_priority ?s1 u = task_priority s u" if "u \<noteq> t" for u
    using that by (simp add: task_priority_def)
  show ?thesis
  proof (cases "task_state s t = TASK_READY")
    case True
    let ?s2 = "ready_queue_remove ?s1 t"
    have nin: "t \<notin> set (remove1 t (ready_queue s))"
      using inv by (simp add: sched_inv_def)
    have "task_priority ?s1 x = task_priority s x" if "x \<in> set (remove1 t (ready_queue s))" for x
    proof -
      from that nin have "x \<noteq> t" by auto
      then show ?thesis by (rule pr)
    qed
    then have eq: "map (task_priority ?s1) (remove1 t (ready_queue s))
          = map (task_priority s) (remove1 t (ready_queue s))"
      by (intro map_cong) auto
    have "sorted (map (task_priority s) (remove1 t (ready_queue s)))"
      using inv by (simp add: sched_inv_def sorted_map_remove1)
    then have "sorted (map (task_priority ?s1) (remove1 t (ready_queue s)))"
      by (simp only: eq)
    then have "sched_inv ?s2"
      using inv st by (auto simp: sched_inv_def dest: notin_set_remove1)
    moreover have "t \<notin> set (ready_queue ?s2)" using nin by simp
    ultimately have "sched_inv (ready_queue_insert ?s2 t)"
      using t True st by (intro sched_inv_insert) simp_all
    with True st show ?thesis by (simp add: resort_ready_def)
  next
    case False
    then have nin: "t \<notin> set (ready_queue s)"
      using inv by (auto simp: sched_inv_def)
    have "task_priority ?s1 x = task_priority s x" if "x \<in> set (ready_queue s)" for x
    proof -
      from that nin have "x \<noteq> t" by auto
      then show ?thesis by (rule pr)
    qed
    then have eq: "map (task_priority ?s1) (ready_queue s) = map (task_priority s) (ready_queue s)"
      by (intro map_cong) auto
    have "sorted (map (task_priority ?s1) (ready_queue s))"
      using inv by (simp only: eq sched_inv_def)
    with inv st False show ?thesis by (simp add: resort_ready_def sched_inv_def)
  qed
qed

lemma sched_inv_task_set_state:
  assumes inv: "sched_inv s"
  shows "sched_inv (task_set_state s t ns)"
proof (cases "t \<ge> length (all_tasks s) \<or> state (all_tasks s ! t) = ns")
  case True
  with inv show ?thesis by (auto simp: task_set_state_def)
next
  case False
  then have t: "t < length (all_tasks s)" and ne: "state (all_tasks s ! t) \<noteq> ns" by auto
  let ?s1 = "upd_task s t (\<lambda>tk. tk\<lparr>state := ns\<rparr>)"
  have pr: "task_priority ?s1 = task_priority s"
    by (auto simp: task_priority_def fun_eq_iff)
  have st: "task_state ?s1 u = task_state s u" if "u \<noteq> t" for u
    using that by (simp add: task_state_def)
  show ?thesis
  proof (cases "state (all_tasks s ! t) = TASK_READY")
    case True
    have nin: "t \<notin> set (remove1 t (ready_queue s))"
      using inv by (simp add: sched_inv_def)
    have st': "task_state ?s1 x = task_state s x" if "x \<in> set (remove1 t (ready_queue s))" for x
    proof -
      from that nin have "x \<noteq> t" by auto
      then show ?thesis by (rule st)
    qed
    have "sched_inv (ready_queue_remove ?s1 t)"
      using inv pr st' nin
      by (auto simp: sched_inv_def sorted_map_remove1 dest: notin_set_remove1)
    with True t ne show ?thesis by (simp add: task_set_state_def Let_def)
  next
    case nr: False
    then have nin: "t \<notin> set (ready_queue s)"
      using inv by (auto simp: sched_inv_def task_state_def)
    have st': "task_state ?s1 x = task_state s x" if "x \<in> set (ready_queue s)" for x
    proof -
      from that nin have "x \<noteq> t" by auto
      then show ?thesis by (rule st)
    qed
    have i1: "sched_inv ?s1"
      using inv pr st' nin by (auto simp: sched_inv_def)
    show ?thesis
    proof (cases "ns = TASK_READY")
      case True
      let ?s2 = "upd_task ?s1 t (\<lambda>tk. tk\<lparr>ready_since := system_ticks s\<rparr>)"
      have "sched_inv ?s2" using i1 by (rule sched_inv_upd_task) simp_all
      moreover have "task_state ?s2 t = TASK_READY" using t True by (simp add: task_state_def)
      ultimately have "sched_inv (ready_queue_insert ?s2 t)"
        using t nin by (intro sched_inv_insert) simp_all
      with True t ne nr show ?thesis by (simp add: task_set_state_def Let_def)
    next
      case False
      with i1 t ne nr show ?thesis by (simp add: task_set_state_def Let_def)
    qed
  qed
qed

lemma task_views_field_updates [simp]:
  "task_state (current_task_update g1 s) = task_state s"
  "task_state (context_switches_update g2 s) = task_state s"
  "task_state (system_ticks_update g3 s) = task_state s"
  "task_state (ready_queue_update g4 s) = task_state s"
  "task_state (mutexes_update g5 s) = task_state s"
  "task_state (semaphores_update g6 s) = task_state s"
  "task_state (next_id_update g7 s) = task_state s"
  "task_priority (current_task_update g1 s) = task_priority s"
  "task_priority (context_switches_update g2 s) = task_priority s"
  "task_priority (system_ticks_update g3 s) = task_priority s"
  "task_priority (ready_queue_update g4 s) = task_priority s"
  "task_priority (mutexes_update g5 s) = task_priority s"
  "task_priority (semaphores_update g6 s) = task_priority s"
  "task_priority (next_id_update g7 s) = task_priority s"
  by (simp_all add: task_state_def task_priority_def fun_eq_iff)

lemma sched_inv_upd_absent:
  assumes inv: "sched_inv s" and nin: "t \<notin> set (ready_queue s)"
  shows "sched_inv (upd_task s t f)"
proof -
  have "task_priority (upd_task s t f) x = task_priority s x \<and>
        task_state (upd_task s t f) x = task_state s x" if "x \<in> set (ready_queue s)" for x
  proof -
    from that nin have "x \<noteq> t" by auto
    then show ?thesis by (simp add: task_priority_def task_state_def)
  qed
  then have eq: "map (task_priority (upd_task s t f)) (ready_queue s)
                 = map (task_priority s) (ready_queue s)"
    and st: "\<forall>x \<in> set (ready_queue s). task_state (upd_task s t f) x = task_state s x"
    by auto
  have "sorted (map (task_priority (upd_task s t f)) (ready_queue s))"
    using inv by (simp only: eq sched_inv_def)
  with inv st show ?thesis by (simp add: sched_inv_def)
qed

lemma sched_inv_frame:
  assumes "sched_inv s" "ready_queue s' = ready_queue s" "all_tasks s' = all_tasks s"
    "idle_task s' = idle_task s" "\<forall>c. current_task s' = Some c \<longrightarrow> c < length (all_tasks s)"
  shows "sched_inv s'"
proof -
  have "task_state s' = task_state s" "task_priority s' = task_priority s"
    using assms(3) by (simp_all add: task_state_def task_priority_def fun_eq_iff)
  with assms show ?thesis by (simp add: sched_inv_def)
qed

lemma sched_inv_context_switch:
  assumes inv: "sched_inv s"
    and c: "\<forall>c. cur = Some c \<longrightarrow> c < length (all_tasks s)"
    and n: "\<forall>n. nxt = Some n \<longrightarrow> n < length (all_tasks s)"
  shows "sched_inv (scheduler_context_switch s cur nxt)"
proof (cases nxt)
  case None
  with inv show ?thesis by (simp add: scheduler_context_switch_def)
next
  case (Some n)
  show ?thesis
  proof (cases "cur = Some n")
    case True
    with inv Some show ?thesis by (simp add: scheduler_context_switch_def)
  next
    case False
    define s1 where "s1 = (case cur of None \<Rightarrow> s
       | Some c \<Rightarrow> if task_state s c = TASK_RUNNING
                   then upd_task (ready_queue_insert
                           (upd_task s c (\<lambda>tk. tk\<lparr>state := TASK_READY,
                                                  ready_since := system_ticks s\<rparr>)) c)
                          c (\<lambda>tk. tk\<lparr>preemptions := preemptions tk + 1\<rparr>)
                   else s)"
    have i1: "sched_inv s1 \<and> length (all_tasks s1) = length (all_tasks s)"
    proof (cases cur)
      case None
      with inv show ?thesis by (simp add: s1_def)
    next
      case (Some c)
      show ?thesis
      proof (cases "task_state s c = TASK_RUNNING")
        case True
        let ?a = "upd_task s c (\<lambda>tk. tk\<lparr>state := TASK_READY, ready_since := system_ticks s\<rparr>)"
        have cv: "c < length (all_tasks s)" using c Some by simp
        have nin: "c \<notin> set (ready_queue s)" using inv True by (auto simp: sched_inv_def)
        have "sched_inv ?a" using inv nin by (rule sched_inv_upd_absent)
        moreover have "task_state ?a c = TASK_READY" using cv by (simp add: task_state_def)
        ultimately have "sched_inv (ready_queue_insert ?a c)"
          using cv nin by (intro sched_inv_insert) simp_all
        then have "sched_inv (upd_task (ready_queue_insert ?a c) c
                     (\<lambda>tk. tk\<lparr>preemptions := preemptions tk + 1\<rparr>))"
          by (rule sched_inv_upd_task) simp_all
        with Some True show ?thesis by (simp add: s1_def)
      next
        case False
        with inv Some show ?thesis by (simp add: s1_def)
      qed
    qed
    let ?s2 = "ready_queue_remove s1 n"
    have "sched_inv ?s2" using i1 by (simp add: sched_inv_remove)
    moreover have "n \<notin> set (ready_queue ?s2)"
      using i1 by (simp add: sched_inv_def)
    ultimately have "sched_inv (upd_task ?s2 n (\<lambda>tk. tk\<lparr>state := TASK_RUNNING\<rparr>))"
      by (rule sched_inv_upd_absent)
    then have "sched_inv ((upd_task ?s2 n (\<lambda>tk. tk\<lparr>state := TASK_RUNNING\<rparr>))
                 \<lparr>current_task := Some n,
                  context_switches :=
                    context_switches (upd_task ?s2 n (\<lambda>tk. tk\<lparr>state := TASK_RUNNING\<rparr>)) + 1\<rparr>)"
      using n Some i1 by (simp add: sched_inv_def)
    with Some False show ?thesis
      by (simp add: scheduler_context_switch_def Let_def s1_def)
  qed
qed

lemma sched_inv_schedule:
  assumes inv: "sched_inv s"
  shows "sched_inv (scheduler_schedule s)"
proof -
  have c: "\<forall>c. current_task s = Some c \<longrightarrow> c < length (all_tasks s)"
    using inv by (simp add: sched_inv_def)
  have n: "\<forall>n. scheduler_get_next_task s = Some n \<longrightarrow> n < length (all_tasks s)"
    using inv by (auto simp: sched_inv_def scheduler_next_def2 split: list.splits)
  have "sched_inv (scheduler_context_switch s (current_task s) (scheduler_get_next_task s))"
    using inv c n by (rule sched_inv_context_switch)
  with inv show ?thesis
    by (auto simp: scheduler_schedule_def Let_def split: option.splits)
qed

lemma sched_inv_inherit_step:
  "sched_inv s \<Longrightarrow> t < length (all_tasks s) \<Longrightarrow> sched_inv (inherit_step s t p)"
  unfolding inherit_step_def by (rule sched_inv_resort) simp_all

lemma sched_inv_priority_inherit:
  "sched_inv s \<Longrightarrow> sched_inv (priority_inherit s t p)"
  by (induction s t rule: priority_inherit_cases [where p = p])
     (simp_all add: sched_inv_inherit_step)

lemma upd_task_twice:
  "upd_task (upd_task s t f) t g = upd_task s t (\<lambda>tk. g (f tk))"
  by (cases "t < length (all_tasks s)") (simp_all add: upd_task_def list_update_beyond)

lemma sched_inv_priority_restore:
  "sched_inv s \<Longrightarrow> sched_inv (priority_restore s t)"
  by (simp add: priority_restore_def Let_def upd_task_twice sched_inv_resort)

lemma sched_inv_task_set_priority:
  "sched_inv s \<Longrightarrow> sched_inv (task_set_priority s t p)"
  by (simp add: task_set_priority_def sched_inv_resort)

lemma fold_preserves:
  assumes "\<And>x s. P s \<Longrightarrow> P (f x s)" "P s"
  shows "P (fold f xs s)"
  using assms(2) by (induction xs arbitrary: s) (simp_all add: assms(1))

lemma funpow_preserves:
  assumes "\<And>s. P s \<Longrightarrow> P (f s)" "P s"
  shows "P ((f ^^ n) s)"
  by (induction n) (simp_all add: assms)

lemma sched_inv_task_create:
  assumes inv: "sched_inv s"
  shows "sched_inv (task_create s prio per dl w)"
proof (cases "length (all_tasks s) \<ge> MAX_ALL_TASKS")
  case True
  with inv show ?thesis by (simp add: task_create_def)
next
  case False
  define tk where "tk = \<lparr>state = TASK_READY,
       priority = (if policy s = SCHED_RATE_MONOTONIC \<and> per > 0
                   then sint (ucast per :: 32 word) else prio),
       original_priority = (if policy s = SCHED_RATE_MONOTONIC \<and> per > 0
                   then sint (ucast per :: 32 word) else prio),
       priority_inherited = False, period = per,
       relative_deadline = (if dl > 0 then dl else per),
       next_release = system_ticks s + per,
       absolute_deadline = system_ticks s + (if dl > 0 then dl else per),
       exec_time = 0, wcet_observed = 0, total_exec_time = 0,
       invocations = 1, deadline_misses = 0, preemptions = 0, priority_boosts = 0,
       held_mutexes = [], blocked_on = None,
       remaining_work = w, ready_since = system_ticks s\<rparr>"
  define s1 where "s1 = s\<lparr>next_id := next_id s + 1, all_tasks := all_tasks s @ [tk]\<rparr>"
  have eq: "task_create s prio per dl w = ready_queue_insert s1 (length (all_tasks s))"
    using False by (simp add: task_create_def Let_def s1_def tk_def)
  have old: "task_state s1 t = task_state s t \<and> task_priority s1 t = task_priority s t"
    if "t < length (all_tasks s)" for t
    using that by (simp add: s1_def task_state_def task_priority_def nth_append)
  have rq: "\<forall>t \<in> set (ready_queue s). t < length (all_tasks s)"
    using inv by (simp add: sched_inv_def)
  then have m: "map (task_priority s1) (ready_queue s) = map (task_priority s) (ready_queue s)"
    using old by (intro map_cong) auto
  have "sorted (map (task_priority s1) (ready_queue s))"
    using inv by (simp only: m sched_inv_def)
  then have i1: "sched_inv s1"
    using inv old rq by (auto simp: sched_inv_def s1_def less_SucI)
  have "task_state s1 (length (all_tasks s)) = TASK_READY"
    by (simp add: s1_def task_state_def tk_def)
  moreover have "length (all_tasks s) \<notin> set (ready_queue s1)"
    using rq by (auto simp: s1_def)
  ultimately have "sched_inv (ready_queue_insert s1 (length (all_tasks s)))"
    using i1 by (intro sched_inv_insert) (simp_all add: s1_def)
  with eq show ?thesis by simp
qed

lemma sched_inv_init: "sched_inv (scheduler_init pol pi)"
  by (simp add: scheduler_init_def task_create_def Let_def MAX_ALL_TASKS_def
                ready_queue_insert_def MAX_READY_TASKS_def ready_queue_remove_def
                upd_task_def sched_inv_def)

lemma sched_inv_held:
  "sched_inv s \<Longrightarrow> sched_inv (task_add_held_mutex s t m)"
  "sched_inv s \<Longrightarrow> sched_inv (task_remove_held_mutex s t m)"
  by (simp_all add: task_add_held_mutex_def task_remove_held_mutex_def sched_inv_upd_task)

lemma sched_inv_frame_eq:
  assumes "sched_inv s" "ready_queue s' = ready_queue s" "all_tasks s' = all_tasks s"
    "idle_task s' = idle_task s" "current_task s' = current_task s"
  shows "sched_inv s'"
  using assms by (intro sched_inv_frame [of s s']) (simp_all add: sched_inv_def)

lemma sched_inv_upd_mutex: "sched_inv s \<Longrightarrow> sched_inv (upd_mutex s m f)"
  by (erule sched_inv_frame_eq) simp_all

lemma sched_inv_upd_sem: "sched_inv s \<Longrightarrow> sched_inv (upd_sem s m f)"
  by (erule sched_inv_frame_eq) simp_all

lemma sched_inv_wait_queue_insert: "sched_inv s \<Longrightarrow> sched_inv (wait_queue_insert s m t)"
  by (simp add: wait_queue_insert_def sched_inv_upd_mutex)

lemma sched_inv_sem_wait_queue_insert:
  "sched_inv s \<Longrightarrow> sched_inv (sem_wait_queue_insert s m t)"
  by (simp add: sem_wait_queue_insert_def sched_inv_upd_sem)

lemma sched_inv_mutex_create: "sched_inv s \<Longrightarrow> sched_inv (mutex_create s)"
  by (erule sched_inv_frame_eq) (simp_all add: mutex_create_def)

lemma sched_inv_semaphore_create: "sched_inv s \<Longrightarrow> sched_inv (semaphore_create s a b)"
  by (erule sched_inv_frame_eq) (simp_all add: semaphore_create_def)

lemma sched_inv_mutex_lock:
  assumes "sched_inv s"
  shows "sched_inv (mutex_lock s m t)"
  using assms
  by (simp add: mutex_lock_def Let_def sched_inv_held sched_inv_upd_mutex
                sched_inv_schedule sched_inv_wait_queue_insert sched_inv_task_set_state
                sched_inv_upd_task sched_inv_priority_inherit
           split: option.splits)

lemma sched_inv_mutex_unlock:
  assumes "sched_inv s"
  shows "sched_inv (mutex_unlock s m t)"
  using assms
  by (simp add: mutex_unlock_def Let_def sched_inv_held sched_inv_upd_mutex
                sched_inv_schedule sched_inv_task_set_state
                sched_inv_upd_task sched_inv_priority_restore
           split: list.splits)

lemma sched_inv_semaphore_wait: "sched_inv s \<Longrightarrow> sched_inv (semaphore_wait s i t)"
  by (simp add: semaphore_wait_def sched_inv_upd_sem sched_inv_schedule
                sched_inv_sem_wait_queue_insert sched_inv_task_set_state)

lemma sched_inv_semaphore_signal: "sched_inv s \<Longrightarrow> sched_inv (semaphore_signal s i)"
  by (simp add: semaphore_signal_def sched_inv_upd_sem sched_inv_schedule
                sched_inv_task_set_state split: list.splits)

lemma sched_inv_release_task: "sched_inv s \<Longrightarrow> sched_inv (release_task s i)"
  by (simp add: release_task_def Let_def sched_inv_task_set_state sched_inv_upd_task)

lemma sched_inv_check_deadline_task: "sched_inv s \<Longrightarrow> sched_inv (check_deadline_task s i)"
  by (simp add: check_deadline_task_def deadline_check_def sched_inv_upd_task)

lemma sched_inv_run_current: "sched_inv s \<Longrightarrow> sched_inv (run_current s)"
  by (simp add: run_current_def Let_def sched_inv_upd_task split: option.splits)

lemma sched_inv_tick_handler:
  assumes "sched_inv s"
  shows "sched_inv (tick_handler s)"
proof -
  have "sched_inv (s\<lparr>system_ticks := system_ticks s + 1\<rparr>)"
    using assms by (rule sched_inv_frame_eq) simp_all
  then have "sched_inv (run_current (s\<lparr>system_ticks := system_ticks s + 1\<rparr>))"
    by (rule sched_inv_run_current)
  then have "sched_inv (check_periodic_releases
                (run_current (s\<lparr>system_ticks := system_ticks s + 1\<rparr>)))"
    unfolding check_periodic_releases_def
    by (intro fold_preserves [where P = sched_inv]) (simp_all add: sched_inv_release_task)
  then show ?thesis
    unfolding tick_handler_def check_deadlines_def
    by (intro fold_preserves [where P = sched_inv]) (simp_all add: sched_inv_check_deadline_task)
qed

lemma sched_inv_advance_time: "sched_inv s \<Longrightarrow> sched_inv (advance_time s n)"
  unfolding advance_time_def
  by (intro funpow_preserves [where P = sched_inv])
     (simp_all add: sched_inv_tick_handler sched_inv_schedule)

lemma sched_inv_simulate_loop: "sched_inv s \<Longrightarrow> sched_inv (simulate_loop k s t)"
  by (induction k arbitrary: s)
     (simp_all add: Let_def sched_inv_tick_handler sched_inv_schedule)

lemma sched_inv_simulate_work: "sched_inv s \<Longrightarrow> sched_inv (simulate_work s t n)"
  by (simp add: simulate_work_def sched_inv_simulate_loop sched_inv_upd_task)

lemma rebuild_sched_inv:
  assumes "sched_inv (s\<lparr>ready_queue := []\<rparr>)" "k \<le> length (all_tasks s)"
  shows "sched_inv (fold (\<lambda>i s'. rebuild_step s' i) [0..<k] (s\<lparr>ready_queue := []\<rparr>)) \<and>
         all_tasks (fold (\<lambda>i s'. rebuild_step s' i) [0..<k] (s\<lparr>ready_queue := []\<rparr>)) = all_tasks s \<and>
         (\<forall>t \<in> set (ready_queue (fold (\<lambda>i s'. rebuild_step s' i) [0..<k] (s\<lparr>ready_queue := []\<rparr>))).
             t < k)"
  using assms(2)
proof (induction k)
  case 0
  with assms(1) show ?case by simp
next
  case (Suc k)
  define r where "r = fold (\<lambda>i s'. rebuild_step s' i) [0..<k] (s\<lparr>ready_queue := []\<rparr>)"
  have ih: "sched_inv r" "all_tasks r = all_tasks s" "\<forall>t \<in> set (ready_queue r). t < k"
    using Suc unfolding r_def by simp_all
  have f: "fold (\<lambda>i s'. rebuild_step s' i) [0..<Suc k] (s\<lparr>ready_queue := []\<rparr>) = rebuild_step r k"
    by (simp add: r_def)
  have nin: "k \<notin> set (ready_queue r)" using ih(3) by auto
  have "sched_inv (rebuild_step r k)"
    using ih Suc.prems nin
    by (simp add: rebuild_step_def sched_inv_insert task_state_def)
  moreover have "\<forall>t \<in> set (ready_queue (rebuild_step r k)). t < Suc k"
    using ih(3) by (auto simp: rebuild_step_def ready_queue_ready_queue_insert less_SucI)
  ultimately show ?case unfolding f using ih(2) by simp
qed

lemma sched_inv_rms:
  assumes "sched_inv s"
  shows "sched_inv (rms_recalculate_priorities qs s)"
proof -
  define s1 where "s1 = assign_ranks s 0
     (qs (\<lambda>a b. cmp_period (all_tasks s ! a) (all_tasks s ! b)) (periodic_tasks s))"
  have "sched_inv (s1\<lparr>ready_queue := []\<rparr>)"
    using assms by (simp add: sched_inv_def s1_def)
  from rebuild_sched_inv [OF this, of "length (all_tasks s1)"]
  show ?thesis
    by (simp add: rms_recalculate_priorities_def Let_def s1_def rebuild_ready_queue_def)
qed

lemma sched_inv_exec: "sched_inv s \<Longrightarrow> sched_inv (exec qs c s)"
  by (cases c)
     (simp_all add: sched_inv_task_create sched_inv_task_set_state task_suspend_def
        task_resume_def task_terminate_def sched_inv_task_set_priority sched_inv_mutex_create
        sched_inv_mutex_lock sched_inv_mutex_unlock sched_inv_priority_inherit
        sched_inv_priority_restore sched_inv_semaphore_create sched_inv_semaphore_wait
        sched_inv_semaphore_signal sched_inv_schedule sched_inv_tick_handler
        sched_inv_advance_time sched_inv_simulate_work sched_inv_rms)

lemma reachable_sched_inv: "reachable_by qs ok s \<Longrightarrow> sched_inv s"
  by (induction rule: reachable_by.induct) (simp_all add: sched_inv_init sched_inv_exec)

lemma reachable_fold:
  "reachable_by qs any_call s \<Longrightarrow> reachable_by qs any_call (fold (exec qs) cs s)"
  by (induction cs arbitrary: s) (simp_all add: reach_step any_call_def)

lemma insert_by_priority_split:
  assumes "sorted (map pr xs)"
  shows "\<exists>pre post. insert_by_priority pr t xs = pre @ t # post \<and> xs = pre @ post \<and>
           (\<forall>x \<in> set pre. pr x \<le> pr t) \<and> (\<forall>x \<in> set post. pr t < pr x)"
proof (intro exI conjI)
  let ?pre = "takeWhile (\<lambda>x. pr x \<le> pr t) xs" and ?post = "dropWhile (\<lambda>x. pr x \<le> pr t) xs"
  show "insert_by_priority pr t xs = ?pre @ t # ?post" by (rule insert_by_priority_position)
  show "xs = ?pre @ ?post" by simp
  show "\<forall>x \<in> set ?pre. pr x \<le> pr t" by (auto dest: set_takeWhileD)
  show "\<forall>x \<in> set ?post. pr t < pr x"
    using assms
  proof (induction xs)
    case Nil
    show ?case by simp
  next
    case (Cons a xs)
    then show ?case by (auto simp: not_le) 
  qed
qed

lemma remove1_split:
  "t \<in> set xs \<Longrightarrow> \<exists>pre post. xs = pre @ t # post \<and> t \<notin> set pre \<and> remove1 t xs = pre @ post"
proof (induction xs)
  case Nil
  then show ?case by simp
next
  case (Cons a xs)
  show ?case
  proof (cases "a = t")
    case True
    then have "a # xs = [] @ t # xs \<and> t \<notin> set [] \<and> remove1 t (a # xs) = [] @ xs" by simp
    then show ?thesis by blast
  next
    case False
    with Cons obtain pre post where "xs = pre @ t # post" "t \<notin> set pre" "remove1 t xs = pre @ post"
      by auto
    with False have "a # xs = (a # pre) @ t # post \<and> t \<notin> set (a # pre) \<and>
        remove1 t (a # xs) = (a # pre) @ post"
      by simp
    then show ?thesis by blast
  qed
qed

lemma insert_by_priority_cong:
  "(\<And>x. x \<in> set xs \<Longrightarrow> pr x = pr' x) \<Longrightarrow> pr t = pr' t \<Longrightarrow>
   insert_by_priority pr t xs = insert_by_priority pr' t xs"
  by (induction xs) simp_all

text \<open>
  \<open>task_set_priority\<close> of a queued task takes the task out of the queue and inserts
  it again.
\<close>

lemma task_set_priority_requeue:
  assumes inv: "sched_inv s" and t: "t \<in> set (ready_queue s)"
    and len: "length (ready_queue s) \<le> MAX_READY_TASKS"
  shows "\<exists>pre post. ready_queue (task_set_priority s t p) = pre @ t # post \<and>
           remove1 t (ready_queue s) = pre @ post \<and>
           (\<forall>x \<in> set pre. task_priority s x \<le> p) \<and>
           (\<forall>x \<in> set post. p < task_priority s x)"
proof -
  from inv t have tv: "t < length (all_tasks s)" and st: "task_state s t = TASK_READY"
    and d: "distinct (ready_queue s)"
    and so: "sorted (map (task_priority s) (ready_queue s))"
    by (auto simp: sched_inv_def)
  let ?r = "remove1 t (ready_queue s)"
  define pr where "pr = (\<lambda>x. if x = t then p else task_priority s x)"
  have nin: "t \<notin> set ?r" using d by simp
  have lr: "length ?r < MAX_READY_TASKS"
  proof -
    from t have "0 < length (ready_queue s)" by (rule length_pos_if_in_set)
    moreover from t have "length (remove1 t (ready_queue s)) = length (ready_queue s) - 1"
      by (simp add: length_remove1)
    ultimately show ?thesis using len by arith
  qed
  define u where "u = ready_queue_remove (upd_task s t (\<lambda>tk. tk\<lparr>priority := p\<rparr>)) t"
  have e: "task_set_priority s t p = ready_queue_insert u t"
    using tv st by (simp add: task_set_priority_def resort_ready_def task_state_def u_def)
  have ru: "ready_queue u = ?r" by (simp add: u_def ready_queue_remove_def)
  have pu: "task_priority u = pr"
    using tv by (auto simp: fun_eq_iff u_def pr_def task_priority_def nth_list_update
                            all_tasks_upd_task ready_queue_remove_def)
  have q: "ready_queue (task_set_priority s t p) = insert_by_priority pr t ?r"
    unfolding e using lr by (simp add: ready_queue_ready_queue_insert ru pu)
  have same: "map pr ?r = map (task_priority s) ?r"
    using nin by (auto simp: pr_def)
  have "sorted (map pr ?r)"
    unfolding same using so by (rule sorted_map_remove1)
  from insert_by_priority_split [OF this, of t]
  obtain pre post where pp: "insert_by_priority pr t ?r = pre @ t # post" "?r = pre @ post"
    "\<forall>x \<in> set pre. pr x \<le> pr t" "\<forall>x \<in> set post. pr t < pr x"
    by blast
  have "x \<noteq> t" if "x \<in> set pre \<or> x \<in> set post" for x
    using that nin pp(2) by auto
  with pp(3,4) have "\<forall>x \<in> set pre. task_priority s x \<le> p" "\<forall>x \<in> set post. p < task_priority s x"
    by (auto simp: pr_def)
  with pp(1,2) q show ?thesis by auto
qed

text \<open>
  \<open>rms_recalculate_priorities\<close> empties the queue and inserts the Ready tasks in
  the order of the task array: afterwards tasks of equal priority stand in that order.
\<close>

lemma insert_by_priority_index_order:
  assumes "sorted_wrt (\<lambda>a b. pr a < pr b \<or> (pr a = pr b \<and> a < b)) xs" "\<forall>x \<in> set xs. x < k"
  shows "sorted_wrt (\<lambda>a b. pr a < pr b \<or> (pr a = pr b \<and> a < b)) (insert_by_priority pr k xs)"
  using assms
proof (induction xs)
  case Nil
  show ?case by simp
next
  case (Cons x xs)
  show ?case
  proof (cases "pr k < pr x")
    case True
    have "pr x \<le> pr y" if "y \<in> set xs" for y using Cons.prems(1) that by auto
    with True have "\<forall>y \<in> set (x # xs). pr k < pr y" by fastforce
    with True Cons.prems(1) show ?thesis by auto
  next
    case False
    have ih: "sorted_wrt (\<lambda>a b. pr a < pr b \<or> (pr a = pr b \<and> a < b)) (insert_by_priority pr k xs)"
      using Cons by simp
    have "x < k" using Cons.prems(2) by simp
    with False have "pr x < pr k \<or> (pr x = pr k \<and> x < k)" by auto
    with False ih Cons.prems(1) show ?thesis by auto
  qed
qed

lemma rebuild_index_order:
  "(let r = fold (\<lambda>i s'. rebuild_step s' i) [0..<n] (s\<lparr>ready_queue := []\<rparr>)
    in task_priority r = task_priority s \<and> (\<forall>x \<in> set (ready_queue r). x < n) \<and>
       sorted_wrt (\<lambda>a b. task_priority s a < task_priority s b \<or>
                          (task_priority s a = task_priority s b \<and> a < b)) (ready_queue r))"
proof (induction n)
  case 0
  show ?case by (simp add: task_priority_def fun_eq_iff)
next
  case (Suc n)
  define r where "r = fold (\<lambda>i s'. rebuild_step s' i) [0..<n] (s\<lparr>ready_queue := []\<rparr>)"
  have ih: "task_priority r = task_priority s" "\<forall>x \<in> set (ready_queue r). x < n"
    "sorted_wrt (\<lambda>a b. task_priority s a < task_priority s b \<or>
                          (task_priority s a = task_priority s b \<and> a < b)) (ready_queue r)"
    using Suc unfolding r_def Let_def by simp_all
  have f: "fold (\<lambda>i s'. rebuild_step s' i) [0..<Suc n] (s\<lparr>ready_queue := []\<rparr>) = rebuild_step r n"
    by (simp add: r_def)
  have a: "task_priority (rebuild_step r n) = task_priority s" using ih(1) by simp
  have b: "\<forall>x \<in> set (ready_queue (rebuild_step r n)). x < Suc n"
    using ih(2) by (auto simp: rebuild_step_def ready_queue_ready_queue_insert)
  have c: "sorted_wrt (\<lambda>a b. task_priority s a < task_priority s b \<or>
                          (task_priority s a = task_priority s b \<and> a < b))
             (ready_queue (rebuild_step r n))"
    using ih(3) insert_by_priority_index_order [OF ih(3) ih(2)]
    by (simp add: rebuild_step_def ready_queue_ready_queue_insert ih(1))
  show ?case unfolding f Let_def using a b c by simp
qed

lemma rms_index_order:
  "sorted_wrt (\<lambda>a b. task_priority (rms_recalculate_priorities qs s) a
                        < task_priority (rms_recalculate_priorities qs s) b \<or>
                      (task_priority (rms_recalculate_priorities qs s) a
                         = task_priority (rms_recalculate_priorities qs s) b \<and> a < b))
     (ready_queue (rms_recalculate_priorities qs s))"
proof -
  define s1 where "s1 = assign_ranks s 0
     (qs (\<lambda>a b. cmp_period (all_tasks s ! a) (all_tasks s ! b)) (periodic_tasks s))"
  have e: "rms_recalculate_priorities qs s
           = fold (\<lambda>i s'. rebuild_step s' i) [0..<length (all_tasks s1)] (s1\<lparr>ready_queue := []\<rparr>)"
    by (simp add: rms_recalculate_priorities_def Let_def s1_def rebuild_ready_queue_def)
  from rebuild_index_order [of "length (all_tasks s1)" s1]
  show ?thesis unfolding e Let_def by simp
qed

text \<open>
  C8, as the code has it. In every state that a driver reaches from \<open>scheduler_init\<close>
  with calls of the public operations the ready queue is in ascending order of
  priority number. \<open>ready_queue_insert\<close> on a sorted queue with room puts the new task
  after all entries whose priority number is not greater (so after its equals) and
  before all entries with a strictly greater one; insertion, removal and pop leave
  the other entries in their order and keep a sorted queue sorted. The order among
  tasks of equal priority is not the order in which they became Ready:
  \<open>task_set_priority\<close> on a queued task (the queue within its capacity) takes the
  task out and inserts it again, behind the entries whose priority number is not
  greater than the new one, and \<open>rms_recalculate_priorities\<close> rebuilds the queue so
  that tasks of equal priority stand in the order of the task array.
\<close>

theorem ready_queue_sorted:
  "(reachable_by qs any_call s \<longrightarrow> sorted (map (task_priority s) (ready_queue s))) \<and>
   (sorted (map (task_priority s) (ready_queue s)) \<longrightarrow>
      (length (ready_queue s) < MAX_READY_TASKS \<longrightarrow>
         (\<exists>pre post. ready_queue (ready_queue_insert s t) = pre @ t # post \<and>
                     ready_queue s = pre @ post \<and>
                     (\<forall>x \<in> set pre. task_priority s x \<le> task_priority s t) \<and>
                     (\<forall>x \<in> set post. task_priority s t < task_priority s x))) \<and>
      sorted (map (task_priority s) (ready_queue (ready_queue_insert s t))) \<and>
      sorted (map (task_priority s) (ready_queue (ready_queue_remove s t))) \<and>
      sorted (map (task_priority s) (ready_queue (snd (ready_queue_pop s))))) \<and>
   (t \<in> set (ready_queue s) \<longrightarrow>
      (\<exists>pre post. ready_queue s = pre @ t # post \<and> t \<notin> set pre \<and>
                  ready_queue (ready_queue_remove s t) = pre @ post)) \<and>
   (t \<notin> set (ready_queue s) \<longrightarrow> ready_queue (ready_queue_remove s t) = ready_queue s) \<and>
   ready_queue (snd (ready_queue_pop s)) = tl (ready_queue s) \<and>
   (reachable_by qs any_call s \<and> t \<in> set (ready_queue s) \<and>
    length (ready_queue s) \<le> MAX_READY_TASKS \<longrightarrow>
      (\<exists>pre post. ready_queue (task_set_priority s t p) = pre @ t # post \<and>
                  remove1 t (ready_queue s) = pre @ post \<and>
                  (\<forall>x \<in> set pre. task_priority s x \<le> p) \<and>
                  (\<forall>x \<in> set post. p < task_priority s x))) \<and>
   sorted_wrt (\<lambda>a b. task_priority (rms_recalculate_priorities qs s) a
                        < task_priority (rms_recalculate_priorities qs s) b \<or>
                      (task_priority (rms_recalculate_priorities qs s) a
                         = task_priority (rms_recalculate_priorities qs s) b \<and> a < b))
     (ready_queue (rms_recalculate_priorities qs s))"
proof (intro conjI impI)
  assume "reachable_by qs any_call s"
  then have "sched_inv s" by (rule reachable_sched_inv)
  then show "sorted (map (task_priority s) (ready_queue s))" by (simp add: sched_inv_def)
next
  assume so: "sorted (map (task_priority s) (ready_queue s))"
  {
    assume "length (ready_queue s) < MAX_READY_TASKS"
    with insert_by_priority_split [OF so, of t]
    show "\<exists>pre post. ready_queue (ready_queue_insert s t) = pre @ t # post \<and>
                     ready_queue s = pre @ post \<and>
                     (\<forall>x \<in> set pre. task_priority s x \<le> task_priority s t) \<and>
                     (\<forall>x \<in> set post. task_priority s t < task_priority s x)"
      by (simp add: ready_queue_ready_queue_insert)
  }
  show "sorted (map (task_priority s) (ready_queue (ready_queue_insert s t)))"
    using so by (simp add: ready_queue_ready_queue_insert sorted_insert_by_priority)
  show "sorted (map (task_priority s) (ready_queue (ready_queue_remove s t)))"
    using so by (simp add: sorted_map_remove1)
  show "sorted (map (task_priority s) (ready_queue (snd (ready_queue_pop s))))"
    using so by (cases "ready_queue s") (simp_all add: ready_queue_pop_def)
next
  assume "t \<in> set (ready_queue s)"
  from remove1_split [OF this]
  show "\<exists>pre post. ready_queue s = pre @ t # post \<and> t \<notin> set pre \<and>
                  ready_queue (ready_queue_remove s t) = pre @ post"
    by (simp add: ready_queue_remove_def)
next
  assume "t \<notin> set (ready_queue s)"
  then show "ready_queue (ready_queue_remove s t) = ready_queue s"
    by (simp add: ready_queue_remove_def remove1_idem)
next
  show "ready_queue (snd (ready_queue_pop s)) = tl (ready_queue s)"
    by (cases "ready_queue s") (simp_all add: ready_queue_pop_def)
next
  assume a: "reachable_by qs any_call s \<and> t \<in> set (ready_queue s) \<and>
    length (ready_queue s) \<le> MAX_READY_TASKS"
  then have "sched_inv s" by (intro reachable_sched_inv [of qs any_call]) simp
  with a show "\<exists>pre post. ready_queue (task_set_priority s t p) = pre @ t # post \<and>
                  remove1 t (ready_queue s) = pre @ post \<and>
                  (\<forall>x \<in> set pre. task_priority s x \<le> p) \<and>
                  (\<forall>x \<in> set post. p < task_priority s x)"
    by (intro task_set_priority_requeue) simp_all
next
  show "sorted_wrt (\<lambda>a b. task_priority (rms_recalculate_priorities qs s) a
                        < task_priority (rms_recalculate_priorities qs s) b \<or>
                      (task_priority (rms_recalculate_priorities qs s) a
                         = task_priority (rms_recalculate_priorities qs s) b \<and> a < b))
     (ready_queue (rms_recalculate_priorities qs s))"
    by (rule rms_index_order)
qed

theorem ready_queue_sorted_witness:
  "reachable_by insort_by any_call late_state \<and>
   ready_queue late_state = [2, 3] \<and>
   sorted (map (task_priority late_state) (ready_queue late_state)) \<and>
   length (ready_queue late_state) < MAX_READY_TASKS \<and>
   sorted (map (task_priority late_state) (ready_queue (ready_queue_insert late_state 1))) \<and>
   (\<exists>pre post. ready_queue (ready_queue_insert late_state 1) = pre @ 1 # post \<and>
               ready_queue late_state = pre @ post) \<and>
   2 \<in> set (ready_queue late_state) \<and>
   (\<exists>pre post. ready_queue late_state = pre @ 2 # post \<and> 2 \<notin> set pre \<and>
               ready_queue (ready_queue_remove late_state 2) = pre @ post) \<and>
   1 \<notin> set (ready_queue late_state) \<and>
   ready_queue (ready_queue_remove late_state 1) = ready_queue late_state \<and>
   reachable_by insort_by any_call tie_state \<and>
   ready_queue tie_state = [2, 1] \<and>
   2 \<in> set (ready_queue tie_state) \<and>
   length (ready_queue tie_state) \<le> MAX_READY_TASKS \<and>
   ready_queue (task_set_priority tie_state 2 5) = [1, 2] \<and>
   (\<exists>pre post. ready_queue (task_set_priority tie_state 2 5) = pre @ 2 # post \<and>
               remove1 2 (ready_queue tie_state) = pre @ post \<and>
               (\<forall>x \<in> set pre. task_priority tie_state x \<le> 5) \<and>
               (\<forall>x \<in> set post. 5 < task_priority tie_state x))"
proof -
  have r: "reachable_by insort_by any_call late_state"
    unfolding late_state_def by (intro reachable_fold reach_init)
  have q: "ready_queue late_state = [2, 3]" "length (ready_queue late_state) < MAX_READY_TASKS"
    by code_simp+
  note th = ready_queue_sorted [of insort_by late_state 1]
  from th r have so: "sorted (map (task_priority late_state) (ready_queue late_state))"
    by blast
  from th so q(2)
  have "\<exists>pre post. ready_queue (ready_queue_insert late_state 1) = pre @ 1 # post \<and>
               ready_queue late_state = pre @ post \<and>
               (\<forall>x \<in> set pre. task_priority late_state x \<le> task_priority late_state 1) \<and>
               (\<forall>x \<in> set post. task_priority late_state 1 < task_priority late_state x)"
    by blast
  then have i: "\<exists>pre post. ready_queue (ready_queue_insert late_state 1) = pre @ 1 # post \<and>
               ready_queue late_state = pre @ post"
    by blast
  from th so
  have si: "sorted (map (task_priority late_state) (ready_queue (ready_queue_insert late_state 1)))"
    by blast
  have m: "2 \<in> set (ready_queue late_state)" "1 \<notin> set (ready_queue late_state)"
    by (simp_all add: q(1))
  from ready_queue_sorted [of insort_by late_state 2] m(1)
  have rm: "\<exists>pre post. ready_queue late_state = pre @ 2 # post \<and> 2 \<notin> set pre \<and>
               ready_queue (ready_queue_remove late_state 2) = pre @ post"
    by blast
  from th m(2)
  have rn: "ready_queue (ready_queue_remove late_state 1) = ready_queue late_state"
    by blast
  have r': "reachable_by insort_by any_call tie_state"
    unfolding tie_state_def by (intro reachable_fold reach_init)
  have q': "ready_queue tie_state = [2, 1]"
    "ready_queue (task_set_priority tie_state 2 5) = [1, 2]"
    by code_simp+
  have b: "2 \<in> set (ready_queue tie_state)" "length (ready_queue tie_state) \<le> MAX_READY_TASKS"
    by (simp_all add: q'(1) MAX_READY_TASKS_def)
  from ready_queue_sorted [of insort_by tie_state 2 5] r' b
  have rq: "\<exists>pre post. ready_queue (task_set_priority tie_state 2 5) = pre @ 2 # post \<and>
               remove1 2 (ready_queue tie_state) = pre @ post \<and>
               (\<forall>x \<in> set pre. task_priority tie_state x \<le> 5) \<and>
               (\<forall>x \<in> set post. 5 < task_priority tie_state x)"
    by blast
  from r q(1) so q(2) si i m(1) rm m(2) rn r' q'(1) b q'(2) rq
  show ?thesis by (intro conjI)
qed

text \<open>
  The claim as written has equal-priority tasks in order of arrival after every
  operation. In \<open>tie_state\<close> the queue is \<open>[2, 1]\<close>, both tasks with priority 5, task 2
  Ready since tick 0 and task 1 since tick 1. After \<open>task_set_priority\<close> of task 2 to
  the priority it has, and likewise after \<open>rms_recalculate_priorities\<close>, the queue is
  \<open>[1, 2]\<close>, while no priority and no \<open>ready_since\<close> has changed.
\<close>

theorem ready_queue_arrival_order_counterexample:
  "reachable_by insort_by any_call tie_state \<and>
   ready_queue tie_state = [2, 1] \<and>
   map priority (all_tasks tie_state) = [255, 5, 5] \<and>
   map ready_since (all_tasks tie_state) = [0, 1, 0] \<and>
   reachable_by insort_by any_call (exec insort_by (TaskSetPriority 2 5) tie_state) \<and>
   ready_queue (exec insort_by (TaskSetPriority 2 5) tie_state) = [1, 2] \<and>
   map priority (all_tasks (exec insort_by (TaskSetPriority 2 5) tie_state)) = [255, 5, 5] \<and>
   map ready_since (all_tasks (exec insort_by (TaskSetPriority 2 5) tie_state)) = [0, 1, 0] \<and>
   reachable_by insort_by any_call (exec insort_by RmsRecalculate tie_state) \<and>
   ready_queue (exec insort_by RmsRecalculate tie_state) = [1, 2] \<and>
   map priority (all_tasks (exec insort_by RmsRecalculate tie_state)) = [255, 5, 5] \<and>
   map ready_since (all_tasks (exec insort_by RmsRecalculate tie_state)) = [0, 1, 0]"
proof -
  have r: "reachable_by insort_by any_call tie_state"
    unfolding tie_state_def by (intro reachable_fold reach_init)
  from r have r1: "reachable_by insort_by any_call (exec insort_by (TaskSetPriority 2 5) tie_state)"
    by (rule reach_step) (simp add: any_call_def)
  from r have r2: "reachable_by insort_by any_call (exec insort_by RmsRecalculate tie_state)"
    by (rule reach_step) (simp add: any_call_def)
  have a: "ready_queue tie_state = [2, 1] \<and>
   map priority (all_tasks tie_state) = [255, 5, 5] \<and>
   map ready_since (all_tasks tie_state) = [0, 1, 0]"
    by code_simp
  have b: "ready_queue (exec insort_by (TaskSetPriority 2 5) tie_state) = [1, 2] \<and>
   map priority (all_tasks (exec insort_by (TaskSetPriority 2 5) tie_state)) = [255, 5, 5] \<and>
   map ready_since (all_tasks (exec insort_by (TaskSetPriority 2 5) tie_state)) = [0, 1, 0]"
    by code_simp
  have c: "ready_queue (exec insort_by RmsRecalculate tie_state) = [1, 2] \<and>
   map priority (all_tasks (exec insort_by RmsRecalculate tie_state)) = [255, 5, 5] \<and>
   map ready_since (all_tasks (exec insort_by RmsRecalculate tie_state)) = [0, 1, 0]"
    by code_simp
  from r r1 r2 a b c show ?thesis by (intro conjI) (elim conjE, assumption)+
qed

section \<open>Priority never above the original priority (C4)\<close>

lemma prio_le_view:
  assumes "map prio_view (all_tasks s') = map prio_view (all_tasks s)" "prio_le s"
  shows "prio_le s'"
proof -
  have e: "prio_le x \<longleftrightarrow> (\<forall>v \<in> set (map prio_view (all_tasks x)). fst v \<le> fst (snd v))" for x
    by (simp add: prio_le_def prio_view_def)
  show ?thesis
    unfolding e [of s'] assms(1) using assms(2) unfolding e [of s] .
qed

lemma prio_le_frame: "all_tasks s' = all_tasks s \<Longrightarrow> prio_le s \<Longrightarrow> prio_le s'"
  by (simp add: prio_le_def)

lemma prio_le_upd_task:
  assumes "prio_le s"
    "t < length (all_tasks s) \<Longrightarrow>
       priority (f (all_tasks s ! t)) \<le> original_priority (f (all_tasks s ! t))"
  shows "prio_le (upd_task s t f)"
proof (cases "t < length (all_tasks s)")
  case True
  have "set ((all_tasks s)[t := f (all_tasks s ! t)]) \<subseteq> insert (f (all_tasks s ! t)) (set (all_tasks s))"
    by (rule set_update_subset_insert)
  with assms True show ?thesis
    by (auto simp: prio_le_def all_tasks_upd_task)
next
  case False
  with assms(1) show ?thesis by (simp add: prio_le_def all_tasks_upd_task list_update_beyond)
qed

lemma prio_le_nth: "prio_le s \<Longrightarrow> t < length (all_tasks s) \<Longrightarrow>
   priority (all_tasks s ! t) \<le> original_priority (all_tasks s ! t)"
  by (simp add: prio_le_def)

lemma prio_le_resort [simp]: "prio_le (resort_ready s t) = prio_le s"
  by (simp add: prio_le_def)

lemma prio_le_inherit_step:
  assumes "prio_le s" "t < length (all_tasks s)" "p < priority (all_tasks s ! t)"
  shows "prio_le (inherit_step s t p)"
  unfolding inherit_step_def prio_le_resort
  using assms(1)
proof (rule prio_le_upd_task)
  from prio_le_nth [OF assms(1,2)] assms(3)
  show "priority ((if \<not> priority_inherited (all_tasks s ! t)
          then (all_tasks s ! t)\<lparr>original_priority := priority (all_tasks s ! t),
                                 priority_inherited := True\<rparr>
          else all_tasks s ! t)\<lparr>priority := p,
             priority_boosts := priority_boosts (all_tasks s ! t) + 1\<rparr>)
     \<le> original_priority ((if \<not> priority_inherited (all_tasks s ! t)
          then (all_tasks s ! t)\<lparr>original_priority := priority (all_tasks s ! t),
                                 priority_inherited := True\<rparr>
          else all_tasks s ! t)\<lparr>priority := p,
             priority_boosts := priority_boosts (all_tasks s ! t) + 1\<rparr>)"
    by simp
qed

lemma prio_le_priority_inherit: "prio_le s \<Longrightarrow> prio_le (priority_inherit s t p)"
  by (induction s t rule: priority_inherit_cases [where p = p])
     (simp_all add: prio_le_inherit_step)

lemma needed_priority_le: "needed_priority s t \<le> original_priority (all_tasks s ! t)"
  using needed_fold_min [of s "held_mutexes (all_tasks s ! t)" "original_priority (all_tasks s ! t)"]
  by (simp add: needed_priority_def)

lemma prio_le_priority_restore: "prio_le s \<Longrightarrow> prio_le (priority_restore s t)"
  by (simp add: priority_restore_def Let_def upd_task_twice prio_le_upd_task needed_priority_le)

lemma prio_le_task_set_priority:
  "prio_le s \<Longrightarrow> t < length (all_tasks s) \<longrightarrow> p \<le> original_priority (all_tasks s ! t) \<Longrightarrow>
   prio_le (task_set_priority s t p)"
  by (simp add: task_set_priority_def prio_le_upd_task)

lemma prio_le_task_create: "prio_le s \<Longrightarrow> prio_le (task_create s prio per dl w)"
  by (simp add: task_create_def Let_def prio_le_def ready_queue_insert_def)

lemma prio_le_init: "prio_le (scheduler_init pol pi)"
  by (simp add: scheduler_init_def task_create_def Let_def MAX_ALL_TASKS_def
                ready_queue_insert_def MAX_READY_TASKS_def ready_queue_remove_def
                upd_task_def prio_le_def)

lemma prio_le_task_set_state: "prio_le s \<Longrightarrow> prio_le (task_set_state s t ns)"
  by (erule prio_le_view [rotated]) (simp add: task_set_state_view)

lemma prio_le_schedule: "prio_le s \<Longrightarrow> prio_le (scheduler_schedule s)"
  by (erule prio_le_view [rotated]) (simp add: scheduler_schedule_view)

lemma prio_le_keep:
  "prio_le s \<Longrightarrow> (\<And>tk. prio_view (f tk) = prio_view tk) \<Longrightarrow> prio_le (upd_task s t f)"
  by (erule prio_le_view [rotated]) (simp add: upd_task_view)

lemma prio_le_mutex_lock: "prio_le s \<Longrightarrow> prio_le (mutex_lock s m t)"
  by (simp add: mutex_lock_def Let_def task_add_held_mutex_def prio_le_keep
        prio_le_schedule prio_le_task_set_state prio_le_priority_inherit
        prio_le_frame [of "wait_queue_insert _ _ _"] prio_le_frame [of "upd_mutex _ _ _"]
      split: option.splits)

lemma prio_le_mutex_unlock: "prio_le s \<Longrightarrow> prio_le (mutex_unlock s m t)"
  by (simp add: mutex_unlock_def Let_def task_add_held_mutex_def task_remove_held_mutex_def
        prio_le_keep prio_le_schedule prio_le_task_set_state prio_le_priority_restore
        prio_le_frame [of "upd_mutex _ _ _"]
      split: list.splits)

lemma prio_le_semaphore_wait: "prio_le s \<Longrightarrow> prio_le (semaphore_wait s i t)"
  by (simp add: semaphore_wait_def prio_le_schedule prio_le_task_set_state
        prio_le_frame [of "sem_wait_queue_insert _ _ _"] prio_le_frame [of "upd_sem _ _ _"])

lemma prio_le_semaphore_signal: "prio_le s \<Longrightarrow> prio_le (semaphore_signal s i)"
  by (simp add: semaphore_signal_def prio_le_schedule prio_le_task_set_state
        prio_le_frame [of "upd_sem _ _ _"] split: list.splits)

lemma prio_view_time_fields [simp]:
  "prio_view (tk\<lparr>next_release := a1, absolute_deadline := a2, exec_time := a3,
                 invocations := a4\<rparr>) = prio_view tk"
  "prio_view (deadline_check now tk) = prio_view tk"
  "prio_view (tk\<lparr>remaining_work := a5\<rparr>) = prio_view tk"
  by (simp_all add: prio_view_def deadline_check_def)

lemma prio_le_tick_handler:
  assumes "prio_le s"
  shows "prio_le (tick_handler s)"
proof -
  have "prio_le (s\<lparr>system_ticks := system_ticks s + 1\<rparr>)"
    using assms by (simp add: prio_le_def)
  then have "prio_le (run_current (s\<lparr>system_ticks := system_ticks s + 1\<rparr>))"
    by (auto simp: run_current_def Let_def prio_view_def split: option.splits
             intro!: prio_le_keep)
  then have "prio_le (check_periodic_releases
                (run_current (s\<lparr>system_ticks := system_ticks s + 1\<rparr>)))"
    unfolding check_periodic_releases_def
    by (intro fold_preserves [where P = prio_le])
       (simp_all add: release_task_def Let_def prio_le_task_set_state prio_le_keep)
  then show ?thesis
    unfolding tick_handler_def check_deadlines_def
    by (intro fold_preserves [where P = prio_le])
       (simp_all add: check_deadline_task_def prio_le_keep)
qed

lemma prio_le_advance_time: "prio_le s \<Longrightarrow> prio_le (advance_time s n)"
  unfolding advance_time_def
  by (intro funpow_preserves [where P = prio_le])
     (simp_all add: prio_le_tick_handler prio_le_schedule)

lemma prio_le_simulate_loop: "prio_le s \<Longrightarrow> prio_le (simulate_loop k s t)"
  by (induction k arbitrary: s)
     (simp_all add: Let_def prio_le_tick_handler prio_le_schedule)

lemma prio_le_simulate_work: "prio_le s \<Longrightarrow> prio_le (simulate_work s t n)"
  by (simp add: simulate_work_def prio_le_simulate_loop prio_le_keep)

lemma prio_le_assign_ranks: "prio_le s \<Longrightarrow> prio_le (assign_ranks s k ts)"
  by (induction ts arbitrary: s k) (simp_all add: prio_le_upd_task)

lemma all_tasks_rebuild_ready_queue [simp]:
  "all_tasks (rebuild_ready_queue s) = all_tasks s"
proof -
  have "all_tasks (fold (\<lambda>i s'. rebuild_step s' i) js x) = all_tasks x" for js x
    by (induction js arbitrary: x) simp_all
  then show ?thesis by (simp add: rebuild_ready_queue_def)
qed

lemma prio_le_rms: "prio_le s \<Longrightarrow> prio_le (rms_recalculate_priorities qs s)"
  by (simp add: rms_recalculate_priorities_def Let_def prio_le_assign_ranks
        prio_le_frame [of "rebuild_ready_queue _"])

lemma prio_le_create:
  "prio_le s \<Longrightarrow> prio_le (mutex_create s)"
  "prio_le s \<Longrightarrow> prio_le (semaphore_create s a b)"
  by (simp_all add: prio_le_def mutex_create_def semaphore_create_def)

lemma prio_le_exec:
  "prio_le s \<Longrightarrow> set_priority_within s c \<Longrightarrow> prio_le (exec qs c s)"
  by (cases c)
     (simp_all add: set_priority_within_def prio_le_task_create prio_le_task_set_state
        task_suspend_def task_resume_def task_terminate_def prio_le_task_set_priority
        prio_le_mutex_lock prio_le_mutex_unlock prio_le_priority_inherit
        prio_le_priority_restore prio_le_semaphore_wait prio_le_semaphore_signal
        prio_le_schedule prio_le_tick_handler prio_le_advance_time prio_le_simulate_work
        prio_le_rms prio_le_create)

lemma reachable_prio_le: "reachable_by qs set_priority_within s \<Longrightarrow> prio_le s"
  by (induction rule: reachable_by.induct) (simp_all add: prio_le_init prio_le_exec)


lemma reachable_fold_all:
  "reachable_by qs ok s \<Longrightarrow> (\<And>c s'. c \<in> set cs \<Longrightarrow> ok s' c) \<Longrightarrow>
   reachable_by qs ok (fold (exec qs) cs s)"
  by (induction cs arbitrary: s) (simp_all add: reach_step)

text \<open>
  C4, as the code has it. \<open>task_set_priority\<close> writes the effective priority only and
  leaves the original priority as it is. In every state that a driver reaches from
  \<open>scheduler_init\<close> with calls of the public operations, among them
  \<open>task_set_priority\<close> only with a priority number not above the task's original
  priority, every task has \<open>priority \<le> original_priority\<close>.
\<close>

theorem priority_within_original:
  "(t < length (all_tasks s) \<longrightarrow>
      priority (all_tasks (task_set_priority s t p) ! t) = p \<and>
      original_priority (all_tasks (task_set_priority s t p) ! t)
        = original_priority (all_tasks s ! t)) \<and>
   (reachable_by qs set_priority_within s \<and> t < length (all_tasks s) \<longrightarrow>
      task_priority s t \<le> original_priority (all_tasks s ! t))"
proof (intro conjI impI)
  assume "t < length (all_tasks s)"
  then show "priority (all_tasks (task_set_priority s t p) ! t) = p"
    "original_priority (all_tasks (task_set_priority s t p) ! t)
        = original_priority (all_tasks s ! t)"
    by (simp_all add: task_set_priority_def)
next
  assume a: "reachable_by qs set_priority_within s \<and> t < length (all_tasks s)"
  then have "prio_le s" by (intro reachable_prio_le [of qs]) simp
  with a show "task_priority s t \<le> original_priority (all_tasks s ! t)"
    by (simp add: prio_le_nth task_priority_def)
qed

theorem priority_within_original_witness:
  "reachable_by insort_by set_priority_within chain_state \<and>
   1 < length (all_tasks chain_state) \<and>
   task_priority chain_state 1 = 15 \<and> original_priority (all_tasks chain_state ! 1) = 20 \<and>
   task_priority chain_state 1 \<le> original_priority (all_tasks chain_state ! 1) \<and>
   priority (all_tasks (task_set_priority chain_state 1 3) ! 1) = 3 \<and>
   original_priority (all_tasks (task_set_priority chain_state 1 3) ! 1) = 20"
proof -
  have r: "reachable_by insort_by set_priority_within chain_state"
    unfolding chain_state_def
    by (rule reachable_fold_all [OF reach_init]) (auto simp: set_priority_within_def)
  have v: "1 < length (all_tasks chain_state)" "task_priority chain_state 1 = 15"
    "original_priority (all_tasks chain_state ! 1) = 20"
    by code_simp+
  note th = priority_within_original [of 1 chain_state 3 insort_by]
  from th r v(1)
  have "task_priority chain_state 1 \<le> original_priority (all_tasks chain_state ! 1)"
    by blast
  moreover from th v(1)
  have "priority (all_tasks (task_set_priority chain_state 1 3) ! 1) = 3 \<and>
        original_priority (all_tasks (task_set_priority chain_state 1 3) ! 1)
          = original_priority (all_tasks chain_state ! 1)"
    by blast
  ultimately show ?thesis using r v by simp
qed

text \<open>
  The claim as written covers \<open>task_set_priority\<close> with any argument. Setting task 1,
  created with priority 5, to priority 9 leaves its original priority at 5.
\<close>

theorem priority_above_original_counterexample:
  "reachable_by insort_by any_call demoted_state \<and>
   1 < length (all_tasks demoted_state) \<and>
   \<not> task_priority demoted_state 1 \<le> original_priority (all_tasks demoted_state ! 1)"
proof -
  have "reachable_by insort_by any_call demoted_state"
    unfolding demoted_state_def
    by (intro reach_step reach_init) (simp_all add: any_call_def)
  moreover have "1 < length (all_tasks demoted_state) \<and>
   \<not> task_priority demoted_state 1 \<le> original_priority (all_tasks demoted_state ! 1)"
    by code_simp
  ultimately show ?thesis by simp
qed

section \<open>Blocked tasks and wait queues (C5, C6)\<close>

lemma blocking_view_cong:
  assumes "blocking_view s' = blocking_view s"
  shows "blocking_inv s' = blocking_inv s" "owner_inv s' = owner_inv s"
proof -
  have v: "map is_blocked (all_tasks s') = map is_blocked (all_tasks s)"
    "map blocked_on (all_tasks s') = map blocked_on (all_tasks s)"
    "map wait_queue (mutexes s') = map wait_queue (mutexes s)"
    "map owner (mutexes s') = map owner (mutexes s)"
    "idle_task s' = idle_task s"
    "map sem_wait_queue (semaphores s') = map sem_wait_queue (semaphores s)"
    using assms by (simp_all add: blocking_view_def)
  have len: "length (all_tasks s') = length (all_tasks s)" using v(1) by (metis length_map)
  have "is_blocked (all_tasks s' ! i) = is_blocked (all_tasks s ! i)"
    if "i < length (all_tasks s)" for i
    using view_nth [OF v(1) that] .
  then have idle: "(\<forall>i. idle_task s = Some i \<longrightarrow>
          i < length (all_tasks s') \<and> \<not> is_blocked (all_tasks s' ! i))
      = (\<forall>i. idle_task s = Some i \<longrightarrow>
          i < length (all_tasks s) \<and> \<not> is_blocked (all_tasks s ! i))"
    unfolding len by auto
  show "blocking_inv s' = blocking_inv s"
    unfolding blocking_inv_def v idle ..
  show "owner_inv s' = owner_inv s"
    unfolding owner_inv_def v ..
qed

lemma blocking_view_frame:
  "all_tasks s' = all_tasks s \<Longrightarrow> mutexes s' = mutexes s \<Longrightarrow> semaphores s' = semaphores s \<Longrightarrow>
   idle_task s' = idle_task s \<Longrightarrow> blocking_view s' = blocking_view s"
  by (simp add: blocking_view_def)

lemma upd_task_view_at:
  "(t < length (all_tasks s) \<Longrightarrow> v (f (all_tasks s ! t)) = v (all_tasks s ! t)) \<Longrightarrow>
   map v (all_tasks (upd_task s t f)) = map v (all_tasks s)"
  by (cases "t < length (all_tasks s)")
     (simp_all add: all_tasks_upd_task map_list_update_same list_update_beyond)

lemma blocking_view_upd_task:
  assumes "t < length (all_tasks s) \<Longrightarrow>
       is_blocked (f (all_tasks s ! t)) = is_blocked (all_tasks s ! t) \<and>
       blocked_on (f (all_tasks s ! t)) = blocked_on (all_tasks s ! t)"
  shows "blocking_view (upd_task s t f) = blocking_view s"
  using assms by (simp add: blocking_view_def upd_task_view_at)

lemma blocking_view_queue_ops [simp]:
  "blocking_view (ready_queue_insert s t) = blocking_view s"
  "blocking_view (ready_queue_remove s t) = blocking_view s"
  "blocking_view (resort_ready s t) = blocking_view s"
  by (simp_all add: blocking_view_def)

lemma blocking_view_field_updates [simp]:
  "blocking_view (current_task_update g1 s) = blocking_view s"
  "blocking_view (context_switches_update g2 s) = blocking_view s"
  "blocking_view (system_ticks_update g3 s) = blocking_view s"
  "blocking_view (ready_queue_update g4 s) = blocking_view s"
  "blocking_view (next_id_update g7 s) = blocking_view s"
  by (simp_all add: blocking_view_def)

lemma blocking_view_task_set_state:
  assumes "ns \<noteq> TASK_BLOCKED" "t < length (all_tasks s) \<longrightarrow> task_state s t \<noteq> TASK_BLOCKED"
  shows "blocking_view (task_set_state s t ns) = blocking_view s"
  using assms
  by (simp add: task_set_state_def Let_def blocking_view_upd_task is_blocked_def task_state_def)

lemma blocking_view_context_switch:
  assumes "\<forall>n. nxt = Some n \<longrightarrow> n < length (all_tasks s) \<longrightarrow> task_state s n \<noteq> TASK_BLOCKED"
  shows "blocking_view (scheduler_context_switch s cur nxt) = blocking_view s"
proof (cases nxt)
  case None
  then show ?thesis by (simp add: scheduler_context_switch_def)
next
  case (Some n)
  define s1 where "s1 = (case cur of None \<Rightarrow> s
       | Some c \<Rightarrow> if task_state s c = TASK_RUNNING
                   then upd_task (ready_queue_insert
                           (upd_task s c (\<lambda>tk. tk\<lparr>state := TASK_READY,
                                                  ready_since := system_ticks s\<rparr>)) c)
                          c (\<lambda>tk. tk\<lparr>preemptions := preemptions tk + 1\<rparr>)
                   else s)"
  have v1: "blocking_view s1 = blocking_view s"
    by (auto simp: s1_def blocking_view_upd_task is_blocked_def task_state_def
             split: option.splits)
  then have e: "map is_blocked (all_tasks s1) = map is_blocked (all_tasks s)"
    by (simp add: blocking_view_def)
  have len: "length (all_tasks s1) = length (all_tasks s)"
    using e by (metis length_map)
  have nb: "\<not> is_blocked (all_tasks s1 ! n)" if "n < length (all_tasks s)"
    using view_nth [OF e that] assms Some that by (simp add: is_blocked_def task_state_def)
  have "blocking_view (upd_task (ready_queue_remove s1 n) n (\<lambda>tk. tk\<lparr>state := TASK_RUNNING\<rparr>))
        = blocking_view (ready_queue_remove s1 n)"
    using nb len by (intro blocking_view_upd_task) (simp add: is_blocked_def)
  then have "blocking_view (upd_task (ready_queue_remove s1 n) n (\<lambda>tk. tk\<lparr>state := TASK_RUNNING\<rparr>))
        = blocking_view s1"
    by simp
  with v1 Some show ?thesis
    by (simp add: scheduler_context_switch_def Let_def s1_def)
qed

lemma blocking_inv_idle:
  "blocking_inv s \<Longrightarrow> idle_task s = Some i \<Longrightarrow>
   i < length (all_tasks s) \<and> task_state s i \<noteq> TASK_BLOCKED"
  by (simp add: blocking_inv_def is_blocked_def task_state_def)

lemma blocking_view_schedule:
  assumes "sched_inv s" "blocking_inv s"
  shows "blocking_view (scheduler_schedule s) = blocking_view s"
proof -
  have "\<forall>n. scheduler_get_next_task s = Some n \<longrightarrow> n < length (all_tasks s) \<longrightarrow>
            task_state s n \<noteq> TASK_BLOCKED"
    using assms blocking_inv_idle [OF assms(2)]
    by (auto simp: scheduler_next_def2 sched_inv_def split: list.splits)
  then have "blocking_view (scheduler_context_switch s (current_task s) (scheduler_get_next_task s))
             = blocking_view s"
    by (rule blocking_view_context_switch)
  then show ?thesis
    by (auto simp: scheduler_schedule_def Let_def split: option.splits)
qed

lemma blocking_view_inherit_step [simp]:
  "blocking_view (inherit_step s t p) = blocking_view s"
  by (simp add: inherit_step_def blocking_view_upd_task is_blocked_def)

lemma blocking_view_priority_inherit [simp]:
  "blocking_view (priority_inherit s t p) = blocking_view s"
  by (induction s t rule: priority_inherit_cases [where p = p]) simp_all

lemma blocking_view_priority_restore [simp]:
  "blocking_view (priority_restore s t) = blocking_view s"
  by (simp add: priority_restore_def Let_def upd_task_twice blocking_view_upd_task is_blocked_def)

lemma blocking_view_task_set_priority [simp]:
  "blocking_view (task_set_priority s t p) = blocking_view s"
  by (simp add: task_set_priority_def blocking_view_upd_task is_blocked_def)

lemma blocking_view_held [simp]:
  "blocking_view (task_add_held_mutex s t m) = blocking_view s"
  "blocking_view (task_remove_held_mutex s t m) = blocking_view s"
  by (simp_all add: task_add_held_mutex_def task_remove_held_mutex_def
                    blocking_view_upd_task is_blocked_def)

lemma blocking_view_release_aux:
  assumes "state (all_tasks s ! i) = TASK_SUSPENDED"
    "\<And>tk. state (g tk) = state tk" "\<And>tk. blocked_on (g tk) = blocked_on tk"
  shows "blocking_view (task_set_state (upd_task s i g) i TASK_READY) = blocking_view s"
proof -
  have u: "blocking_view (upd_task s i g) = blocking_view s"
    by (simp add: blocking_view_upd_task is_blocked_def assms)
  have "blocking_view (task_set_state (upd_task s i g) i TASK_READY)
        = blocking_view (upd_task s i g)"
    using assms by (intro blocking_view_task_set_state) (simp_all add: task_state_def)
  then show ?thesis by (simp only: u)
qed

lemma blocking_view_release_task [simp]:
  "blocking_view (release_task s i) = blocking_view s"
  by (simp add: release_task_def Let_def blocking_view_release_aux)

lemma blocking_view_check_deadline_task [simp]:
  "blocking_view (check_deadline_task s i) = blocking_view s"
  by (simp add: check_deadline_task_def deadline_check_def blocking_view_upd_task is_blocked_def)

lemma blocking_view_run_current [simp]:
  "blocking_view (run_current s) = blocking_view s"
  by (simp add: run_current_def Let_def blocking_view_upd_task is_blocked_def
           split: option.splits)

lemma fold_same_view:
  assumes "\<And>x s. v (f x s) = v s"
  shows "v (fold f xs s) = v s"
  by (induction xs arbitrary: s) (simp_all add: assms)

lemma blocking_view_tick_handler [simp]:
  "blocking_view (tick_handler s) = blocking_view s"
  by (simp add: tick_handler_def check_deadlines_def check_periodic_releases_def
                fold_same_view [where v = blocking_view])

lemma blocking_view_assign_ranks [simp]:
  "blocking_view (assign_ranks s k ts) = blocking_view s"
  by (induction ts arbitrary: s k) (simp_all add: blocking_view_upd_task is_blocked_def)

lemma blocking_view_rms [simp]:
  "blocking_view (rms_recalculate_priorities qs s) = blocking_view s"
proof -
  have "blocking_view (fold (\<lambda>i s'. rebuild_step s' i) js x) = blocking_view x" for js x
    by (intro fold_same_view [where v = blocking_view]) (simp add: rebuild_step_def)
  then show ?thesis
    by (simp add: rms_recalculate_priorities_def Let_def rebuild_ready_queue_def)
qed

lemma queues_consistent_block:
  assumes qc: "queues_consistent blk bos wqs" and len: "length bos = length blk"
    and t: "t < length blk" "\<not> blk ! t" and m: "m < length wqs"
    and q: "set q = insert t (set (wqs ! m))" "distinct q"
  shows "queues_consistent (blk[t := True]) (bos[t := Some m]) (wqs[m := q])"
proof -
  have nin: "t \<notin> set (wqs ! k)" if "k < length wqs" for k
    using qc that t by (auto simp: queues_consistent_def)
  have a: "distinct ((wqs[m := q]) ! k) \<and>
           (\<forall>u \<in> set ((wqs[m := q]) ! k). u < length blk \<and> (blk[t := True]) ! u \<and>
                (bos[t := Some m]) ! u = Some k)" if k: "k < length wqs" for k
  proof (cases "k = m")
    case True
    with qc q t m len show ?thesis
      by (auto simp: queues_consistent_def nth_list_update)
  next
    case False
    with qc k t len nin [OF k] show ?thesis
      by (auto simp: queues_consistent_def nth_list_update)
  qed
  have b: "((blk[t := True]) ! u \<longrightarrow>
              (\<exists>k < length wqs. (bos[t := Some m]) ! u = Some k \<and> u \<in> set ((wqs[m := q]) ! k))) \<and>
           (\<not> (blk[t := True]) ! u \<longrightarrow> (bos[t := Some m]) ! u = None)" if u: "u < length blk" for u
  proof (cases "u = t")
    case True
    with t m q len show ?thesis by (auto simp: nth_list_update)
  next
    case False
    from qc u have
      "(blk ! u \<longrightarrow> (\<exists>k < length wqs. bos ! u = Some k \<and> u \<in> set (wqs ! k))) \<and>
       (\<not> blk ! u \<longrightarrow> bos ! u = None)"
      by (simp add: queues_consistent_def)
    with False q m show ?thesis
      by (auto simp: nth_list_update)
  qed
  from a b show ?thesis by (simp add: queues_consistent_def)
qed

lemma queues_consistent_wake:
  assumes qc: "queues_consistent blk bos wqs" and len: "length bos = length blk"
    and m: "m < length wqs" and q: "wqs ! m = w # rest"
  shows "queues_consistent (blk[w := False]) (bos[w := None]) (wqs[m := rest])"
proof -
  have w: "w < length blk" "blk ! w" "bos ! w = Some m" "w \<notin> set rest" "distinct rest"
    using qc m q by (auto simp: queues_consistent_def)
  have nin: "w \<notin> set (wqs ! k)" if "k < length wqs" "k \<noteq> m" for k
    using qc that w(3) by (auto simp: queues_consistent_def)
  have a: "distinct ((wqs[m := rest]) ! k) \<and>
           (\<forall>u \<in> set ((wqs[m := rest]) ! k). u < length blk \<and> (blk[w := False]) ! u \<and>
                (bos[w := None]) ! u = Some k)" if k: "k < length wqs" for k
  proof (cases "k = m")
    case True
    with qc q w m len show ?thesis
      by (auto simp: queues_consistent_def nth_list_update)
  next
    case False
    with qc k w len nin [OF k] show ?thesis
      by (auto simp: queues_consistent_def nth_list_update)
  qed
  have b: "((blk[w := False]) ! u \<longrightarrow>
              (\<exists>k < length wqs. (bos[w := None]) ! u = Some k \<and> u \<in> set ((wqs[m := rest]) ! k))) \<and>
           (\<not> (blk[w := False]) ! u \<longrightarrow> (bos[w := None]) ! u = None)" if u: "u < length blk" for u
  proof (cases "u = w")
    case True
    with w len show ?thesis by (auto simp: nth_list_update)
  next
    case False
    from qc u have
      "(blk ! u \<longrightarrow> (\<exists>k < length wqs. bos ! u = Some k \<and> u \<in> set (wqs ! k))) \<and>
       (\<not> blk ! u \<longrightarrow> bos ! u = None)"
      by (simp add: queues_consistent_def)
    with False q m show ?thesis
      by (auto simp: nth_list_update)
  qed
  from a b show ?thesis by (simp add: queues_consistent_def)
qed

lemma queues_consistent_new_task:
  assumes "queues_consistent blk bos wqs" "length bos = length blk"
  shows "queues_consistent (blk @ [False]) (bos @ [None]) wqs"
  using assms
  by (auto simp: queues_consistent_def nth_append less_Suc_eq)

lemma queues_consistent_new_mutex:
  assumes "queues_consistent blk bos wqs"
  shows "queues_consistent blk bos (wqs @ [[]])"
  using assms
  by (auto simp: queues_consistent_def nth_append less_Suc_eq) 

lemma blocking_inv_cong5:
  assumes v: "map is_blocked (all_tasks s') = map is_blocked (all_tasks s)"
    "map blocked_on (all_tasks s') = map blocked_on (all_tasks s)"
    "map wait_queue (mutexes s') = map wait_queue (mutexes s)"
    "idle_task s' = idle_task s"
    "map sem_wait_queue (semaphores s') = map sem_wait_queue (semaphores s)"
  shows "blocking_inv s' = blocking_inv s"
proof -
  have len: "length (all_tasks s') = length (all_tasks s)" using v(1) by (metis length_map)
  have "is_blocked (all_tasks s' ! i) = is_blocked (all_tasks s ! i)"
    if "i < length (all_tasks s)" for i
    using view_nth [OF v(1) that] .
  then have idle: "(\<forall>i. idle_task s = Some i \<longrightarrow>
          i < length (all_tasks s') \<and> \<not> is_blocked (all_tasks s' ! i))
      = (\<forall>i. idle_task s = Some i \<longrightarrow>
          i < length (all_tasks s) \<and> \<not> is_blocked (all_tasks s ! i))"
    unfolding len by auto
  show ?thesis
    unfolding blocking_inv_def v idle ..
qed

lemma blocking_view_parts:
  assumes "blocking_view s' = blocking_view s"
  shows "map is_blocked (all_tasks s') = map is_blocked (all_tasks s)"
    "map blocked_on (all_tasks s') = map blocked_on (all_tasks s)"
    "map wait_queue (mutexes s') = map wait_queue (mutexes s)"
    "map owner (mutexes s') = map owner (mutexes s)"
    "idle_task s' = idle_task s"
    "map sem_wait_queue (semaphores s') = map sem_wait_queue (semaphores s)"
    "length (all_tasks s') = length (all_tasks s)"
    "length (mutexes s') = length (mutexes s)"
proof -
  show v: "map is_blocked (all_tasks s') = map is_blocked (all_tasks s)"
    "map blocked_on (all_tasks s') = map blocked_on (all_tasks s)"
    "map wait_queue (mutexes s') = map wait_queue (mutexes s)"
    "map owner (mutexes s') = map owner (mutexes s)"
    "idle_task s' = idle_task s"
    "map sem_wait_queue (semaphores s') = map sem_wait_queue (semaphores s)"
    using assms by (simp_all add: blocking_view_def)
  show "length (all_tasks s') = length (all_tasks s)" using v(1) by (metis length_map)
  show "length (mutexes s') = length (mutexes s)" using v(3) by (metis length_map)
qed

text \<open>The two invariants that the dispatcher needs and keeps.\<close>

lemma blocking_inv_transfer:
  assumes "blocking_inv s" "blocking_view s' = blocking_view s"
  shows "blocking_inv s'"
  using assms(1) blocking_view_cong(1) [OF assms(2)] by simp

lemma owner_inv_transfer:
  assumes "owner_inv s" "blocking_view s' = blocking_view s"
  shows "owner_inv s'"
  using assms(1) blocking_view_cong(2) [OF assms(2)] by simp

lemma blocking_inv_schedule:
  assumes "sched_inv s" "blocking_inv s"
  shows "blocking_inv (scheduler_schedule s)"
  using assms(2) blocking_view_schedule [OF assms] by (rule blocking_inv_transfer)

lemma blocking_inv_task_create:
  assumes "blocking_inv s"
  shows "blocking_inv (task_create s prio per dl w)"
proof (cases "length (all_tasks s) \<ge> MAX_ALL_TASKS")
  case True
  with assms show ?thesis by (simp add: task_create_def)
next
  case False
  have qc: "queues_consistent (map is_blocked (all_tasks s) @ [False])
              (map blocked_on (all_tasks s) @ [None]) (map wait_queue (mutexes s))"
    using assms by (intro queues_consistent_new_task) (simp_all add: blocking_inv_def)
  have idle: "\<forall>i. idle_task s = Some i \<longrightarrow>
      i < length (all_tasks s) \<and> \<not> is_blocked (all_tasks s ! i)"
    and sem: "\<forall>q \<in> set (map sem_wait_queue (semaphores s)). q = []"
    using assms by (simp_all add: blocking_inv_def)
  define tk where "tk = \<lparr>state = TASK_READY,
       priority = (if policy s = SCHED_RATE_MONOTONIC \<and> per > 0
                   then sint (ucast per :: 32 word) else prio),
       original_priority = (if policy s = SCHED_RATE_MONOTONIC \<and> per > 0
                   then sint (ucast per :: 32 word) else prio),
       priority_inherited = False, period = per,
       relative_deadline = (if dl > 0 then dl else per),
       next_release = system_ticks s + per,
       absolute_deadline = system_ticks s + (if dl > 0 then dl else per),
       exec_time = 0, wcet_observed = 0, total_exec_time = 0,
       invocations = 1, deadline_misses = 0, preemptions = 0, priority_boosts = 0,
       held_mutexes = [], blocked_on = None,
       remaining_work = w, ready_since = system_ticks s\<rparr>"
  define s1 where "s1 = s\<lparr>next_id := next_id s + 1, all_tasks := all_tasks s @ [tk]\<rparr>"
  have eq: "task_create s prio per dl w = ready_queue_insert s1 (length (all_tasks s))"
    using False by (simp add: task_create_def Let_def s1_def tk_def)
  have tkv: "is_blocked tk = False" "blocked_on tk = None"
    by (simp_all add: tk_def is_blocked_def)
  have idle1: "\<forall>i. idle_task s1 = Some i \<longrightarrow>
      i < length (all_tasks s1) \<and> \<not> is_blocked (all_tasks s1 ! i)"
    using idle by (auto simp: s1_def nth_append)
  have "blocking_inv s1"
    unfolding blocking_inv_def
    using qc idle1 sem tkv by (simp add: s1_def)
  then show ?thesis
    unfolding eq by (rule blocking_inv_transfer) simp
qed

lemma blocking_inv_init: "blocking_inv (scheduler_init pol pi)"
  by (simp add: scheduler_init_def task_create_def Let_def MAX_ALL_TASKS_def
                ready_queue_insert_def MAX_READY_TASKS_def ready_queue_remove_def
                upd_task_def blocking_inv_def queues_consistent_def is_blocked_def)

lemma blocking_inv_mutex_create: "blocking_inv s \<Longrightarrow> blocking_inv (mutex_create s)"
  by (simp add: blocking_inv_def mutex_create_def queues_consistent_new_mutex)

lemma blocking_inv_semaphore_create:
  "blocking_inv s \<Longrightarrow> blocking_inv (semaphore_create s a b)"
  by (simp add: blocking_inv_def semaphore_create_def)

lemma map_wait_queue_upd_mutex:
  "m < length (mutexes s) \<Longrightarrow>
   map wait_queue (mutexes (upd_mutex s m f))
     = (map wait_queue (mutexes s))[m := wait_queue (f (mutexes s ! m))]"
  by (simp add: map_update)

lemma is_blocked_task_set_state:
  assumes "t < length (all_tasks s)"
  shows "map is_blocked (all_tasks (task_set_state s t ns))
         = (map is_blocked (all_tasks s))[t := (ns = TASK_BLOCKED)]"
proof (cases "state (all_tasks s ! t) = ns")
  case True
  then have "(map is_blocked (all_tasks s))[t := (ns = TASK_BLOCKED)] = map is_blocked (all_tasks s)"
    using assms by (simp add: list_update_same_conv is_blocked_def)
  with True assms show ?thesis by (simp add: task_set_state_def)
next
  case False
  with assms show ?thesis
    by (simp add: task_set_state_def Let_def all_tasks_upd_task map_update is_blocked_def)
qed

lemma blocking_inv_parts:
  assumes "blocking_inv s"
  shows "queues_consistent (map is_blocked (all_tasks s)) (map blocked_on (all_tasks s))
                (map wait_queue (mutexes s))"
    "\<forall>i. idle_task s = Some i \<longrightarrow> i < length (all_tasks s) \<and> \<not> is_blocked (all_tasks s ! i)"
    "\<forall>q \<in> set (map sem_wait_queue (semaphores s)). q = []"
  using assms unfolding blocking_inv_def by blast+

lemma blocking_invI:
  assumes "queues_consistent (map is_blocked (all_tasks s)) (map blocked_on (all_tasks s))
                (map wait_queue (mutexes s))"
    "\<forall>i. idle_task s = Some i \<longrightarrow> i < length (all_tasks s) \<and> \<not> is_blocked (all_tasks s ! i)"
    "\<forall>q \<in> set (map sem_wait_queue (semaphores s)). q = []"
  shows "blocking_inv s"
  using assms unfolding blocking_inv_def by blast

text \<open>
  What \<open>mutex_lock\<close> does to the blocking view: an uncontended lock writes the owner,
  a contended lock writes \<open>blocked_on\<close>, the state and the wait queue.
\<close>

lemma mutex_lock_blocking:
  assumes si: "sched_inv s" and bi: "blocking_inv s" and d: "blocking_discipline s (MutexLock m t)"
    and m: "m < length (mutexes s)" and t: "t < length (all_tasks s)"
  shows "blocking_inv (mutex_lock s m t) \<and>
         map blocked_on (all_tasks (mutex_lock s m t))
           = (if locked (mutexes s ! m) then (map blocked_on (all_tasks s))[t := Some m]
              else map blocked_on (all_tasks s)) \<and>
         map owner (mutexes (mutex_lock s m t))
           = (if locked (mutexes s ! m) then map owner (mutexes s)
              else (map owner (mutexes s))[m := Some t])"
proof -
  from d m t have nb: "task_state s t \<noteq> TASK_BLOCKED" and ni: "idle_task s \<noteq> Some t"
    and room: "locked (mutexes s ! m) \<longrightarrow>
               length (wait_queue (mutexes s ! m)) < MUTEX_WAIT_QUEUE_CAP"
    by (simp_all add: blocking_discipline_def)
  note b = blocking_inv_parts [OF bi]
  show ?thesis
  proof (cases "locked (mutexes s ! m)")
    case False
    let ?s' = "task_add_held_mutex
             (upd_mutex s m (\<lambda>mx. mx\<lparr>locked := True, owner := Some t\<rparr>)) t m"
    have "blocking_inv ?s' = blocking_inv s"
      using m by (intro blocking_inv_cong5)
         (simp_all add: task_add_held_mutex_def upd_task_view_at is_blocked_def
                        map_update list_update_same_conv)
    moreover have "map blocked_on (all_tasks ?s') = map blocked_on (all_tasks s)"
      by (simp add: task_add_held_mutex_def upd_task_view_at)
    moreover have "map owner (mutexes ?s') = (map owner (mutexes s))[m := Some t]"
      using m by (simp add: map_update)
    ultimately show ?thesis using bi False m t by (simp add: mutex_lock_def)
  next
    case True
    define s1 where "s1 = (if priority_inheritance_enabled s
                  then (case owner (mutexes s ! m) of
                          None \<Rightarrow> s
                        | Some ow \<Rightarrow>
                            if task_priority s t < task_priority s ow
                            then priority_inherit s ow (task_priority s t) else s)
                  else s)"
    define s2 where "s2 = upd_task s1 t (\<lambda>tk. tk\<lparr>blocked_on := Some m\<rparr>)"
    define s3 where "s3 = task_set_state s2 t TASK_BLOCKED"
    define s4 where "s4 = wait_queue_insert s3 m t"
    have eq: "mutex_lock s m t = scheduler_schedule s4"
      using m t True by (simp add: mutex_lock_def Let_def s1_def s2_def s3_def s4_def)
    have v1: "blocking_view s1 = blocking_view s"
      by (simp add: s1_def split: option.splits)
    note p1 = blocking_view_parts [OF v1]
    have i1: "sched_inv s1"
      using si by (simp add: s1_def sched_inv_priority_inherit split: option.splits)
    have mx: "mutexes s3 = mutexes s" "semaphores s3 = semaphores s"
      "idle_task s3 = idle_task s"
      by (simp_all add: s3_def s2_def s1_def split: option.splits)
    have t1: "t < length (all_tasks s1)" using t p1(7) by simp
    have blk3: "map is_blocked (all_tasks s3) = (map is_blocked (all_tasks s))[t := True]"
      using t1 p1(1)
      by (simp add: s3_def s2_def is_blocked_task_set_state upd_task_view_at is_blocked_def)
    have bos3: "map blocked_on (all_tasks s3) = (map blocked_on (all_tasks s))[t := Some m]"
      using t1 p1(2)
      by (simp add: s3_def s2_def task_set_state_view ignores_sched_def
                    all_tasks_upd_task map_update)
    have all4: "all_tasks s4 = all_tasks s3" "semaphores s4 = semaphores s"
      "idle_task s4 = idle_task s"
      by (simp_all add: s4_def mx)
    have wq4: "map wait_queue (mutexes s4)
               = (map wait_queue (mutexes s))
                   [m := insert_by_priority (task_priority s3) t (wait_queue (mutexes s ! m))]"
      using m room True
      by (simp add: s4_def wait_queue_insert_def mx map_update)
    have tnb: "\<not> map is_blocked (all_tasks s) ! t"
      using nb t by (simp add: is_blocked_def task_state_def)
    have tnin: "t \<notin> set (wait_queue (mutexes s ! m))"
      using b(1) m tnb by (auto simp: queues_consistent_def)
    have dq: "distinct (wait_queue (mutexes s ! m))"
      using b(1) m by (auto simp: queues_consistent_def)
    have "queues_consistent ((map is_blocked (all_tasks s))[t := True])
            ((map blocked_on (all_tasks s))[t := Some m])
            ((map wait_queue (mutexes s))
                   [m := insert_by_priority (task_priority s3) t (wait_queue (mutexes s ! m))])"
      using b(1) _ _ tnb
    proof (rule queues_consistent_block)
      show "length (map blocked_on (all_tasks s)) = length (map is_blocked (all_tasks s))"
        by simp
      show "t < length (map is_blocked (all_tasks s))" using t by simp
      show "m < length (map wait_queue (mutexes s))" using m by simp
      show "set (insert_by_priority (task_priority s3) t (wait_queue (mutexes s ! m)))
            = insert t (set (map wait_queue (mutexes s) ! m))"
        using m by simp
      show "distinct (insert_by_priority (task_priority s3) t (wait_queue (mutexes s ! m)))"
        using dq tnin by (rule distinct_insert_by_priority)
    qed
    then have qc4: "queues_consistent (map is_blocked (all_tasks s4))
                (map blocked_on (all_tasks s4)) (map wait_queue (mutexes s4))"
      by (simp only: wq4 all4 blk3 bos3)
    have idle4: "\<forall>i. idle_task s4 = Some i \<longrightarrow>
          i < length (all_tasks s4) \<and> \<not> is_blocked (all_tasks s4 ! i)"
    proof (intro allI impI)
      fix i assume "idle_task s4 = Some i"
      then have i: "idle_task s = Some i" by (simp add: all4)
      with b(2) have iv: "i < length (all_tasks s)" "\<not> is_blocked (all_tasks s ! i)" by auto
      from i ni have ne: "i \<noteq> t" by auto
      have len: "length (all_tasks s4) = length (all_tasks s)"
        using blk3 all4 by (metis length_list_update length_map)
      have "map is_blocked (all_tasks s4) ! i = (map is_blocked (all_tasks s))[t := True] ! i"
        by (simp only: all4 blk3)
      then have "is_blocked (all_tasks s4 ! i) = is_blocked (all_tasks s ! i)"
        using iv(1) len ne by simp
      with iv len show "i < length (all_tasks s4) \<and> \<not> is_blocked (all_tasks s4 ! i)"
        by simp
    qed
    have sem4: "\<forall>q \<in> set (map sem_wait_queue (semaphores s4)). q = []"
      using b(3) by (simp only: all4)
    have b4: "blocking_inv s4"
      using qc4 idle4 sem4 by (rule blocking_invI)
    have i4: "sched_inv s4"
      using i1 by (simp add: s4_def s3_def s2_def sched_inv_wait_queue_insert
                             sched_inv_task_set_state sched_inv_upd_task)
    note p4 = blocking_view_parts [OF blocking_view_schedule [OF i4 b4]]
    have own4: "map owner (mutexes s4) = map owner (mutexes s)"
      using m by (simp add: s4_def wait_queue_insert_def mx map_update list_update_same_conv)
    have "blocking_inv (scheduler_schedule s4)" using i4 b4 by (rule blocking_inv_schedule)
    moreover have "map blocked_on (all_tasks (scheduler_schedule s4))
                   = (map blocked_on (all_tasks s))[t := Some m]"
      by (simp only: p4(2) all4 bos3)
    moreover have "map owner (mutexes (scheduler_schedule s4)) = map owner (mutexes s)"
      by (simp only: p4(4) own4)
    ultimately show ?thesis unfolding eq using True by simp
  qed
qed

lemma blocking_inv_mutex_lock:
  assumes "sched_inv s" "blocking_inv s" "blocking_discipline s (MutexLock m t)"
  shows "blocking_inv (mutex_lock s m t)"
proof (cases "m < length (mutexes s) \<and> t < length (all_tasks s)")
  case True
  with mutex_lock_blocking [OF assms] show ?thesis by blast
next
  case False
  with assms(2) show ?thesis by (auto simp: mutex_lock_def)
qed

text \<open>
  What \<open>mutex_unlock\<close> by the owner does to the blocking view: the head of the wait
  queue, if there is one, leaves the queue, is no longer Blocked and becomes the owner.
\<close>

lemma mutex_unlock_blocking:
  assumes si: "sched_inv s" and bi: "blocking_inv s"
    and False: "\<not> (m \<ge> length (mutexes s) \<or> t \<ge> length (all_tasks s)
              \<or> owner (mutexes s ! m) \<noteq> Some t)"
  shows "blocking_inv (mutex_unlock s m t) \<and>
         (case wait_queue (mutexes s ! m) of
            [] \<Rightarrow> map blocked_on (all_tasks (mutex_unlock s m t)) = map blocked_on (all_tasks s) \<and>
                  map owner (mutexes (mutex_unlock s m t)) = (map owner (mutexes s))[m := None]
          | w # rest \<Rightarrow>
              w < length (all_tasks s) \<and>
              map blocked_on (all_tasks (mutex_unlock s m t))
                = (map blocked_on (all_tasks s))[w := None] \<and>
              map owner (mutexes (mutex_unlock s m t)) = (map owner (mutexes s))[m := Some w])"
proof -
  define s2 where "s2 = (if priority_inheritance_enabled (task_remove_held_mutex s t m)
                         then priority_restore (task_remove_held_mutex s t m) t
                         else task_remove_held_mutex s t m)"
  have v2: "blocking_view s2 = blocking_view s" by (simp add: s2_def)
  have i2: "sched_inv s2"
    using si by (simp add: s2_def sched_inv_held sched_inv_priority_restore)
  have b2: "blocking_inv s2" using bi v2 by (rule blocking_inv_transfer)
  note p2 = blocking_view_parts [OF v2]
  note b = blocking_inv_parts [OF b2]
  have m2: "m < length (mutexes s2)" using False p2(8) by simp
  define s3 where "s3 = (case wait_queue (mutexes s2 ! m) of
                    [] \<Rightarrow> upd_mutex s2 m (\<lambda>mx. mx\<lparr>locked := False, owner := None\<rparr>)
                  | waiter # rest \<Rightarrow>
                      task_set_state (task_add_held_mutex
                        (upd_mutex (upd_task (upd_mutex s2 m (\<lambda>mx. mx\<lparr>wait_queue := rest\<rparr>))
                             waiter (\<lambda>tk. tk\<lparr>blocked_on := None\<rparr>))
                           m (\<lambda>mx. mx\<lparr>owner := Some waiter\<rparr>)) waiter m) waiter TASK_READY)"
  have eq: "mutex_unlock s m t = scheduler_schedule s3"
    using False unfolding mutex_unlock_def Let_def s3_def s2_def by simp
  have i3: "sched_inv s3"
    using i2 by (simp add: s3_def sched_inv_held sched_inv_upd_mutex sched_inv_task_set_state
                   sched_inv_upd_task split: list.splits)
  have wqm: "wait_queue (mutexes s2 ! m) = wait_queue (mutexes s ! m)"
    by (simp add: s2_def)
  have b3: "blocking_inv s3 \<and>
         (case wait_queue (mutexes s2 ! m) of
            [] \<Rightarrow> map blocked_on (all_tasks s3) = map blocked_on (all_tasks s2) \<and>
                  map owner (mutexes s3) = (map owner (mutexes s2))[m := None]
          | w # rest \<Rightarrow>
              w < length (all_tasks s2) \<and>
              map blocked_on (all_tasks s3) = (map blocked_on (all_tasks s2))[w := None] \<and>
              map owner (mutexes s3) = (map owner (mutexes s2))[m := Some w])"
  proof (cases "wait_queue (mutexes s2 ! m)")
    case Nil
    then have e: "s3 = upd_mutex s2 m (\<lambda>mx. mx\<lparr>locked := False, owner := None\<rparr>)"
      by (simp add: s3_def)
    have "blocking_inv s3 = blocking_inv s2"
      unfolding e using m2
      by (intro blocking_inv_cong5) (simp_all add: map_update list_update_same_conv)
    moreover have "map owner (mutexes s3) = (map owner (mutexes s2))[m := None]"
      unfolding e using m2 by (simp add: map_update)
    moreover have "map blocked_on (all_tasks s3) = map blocked_on (all_tasks s2)"
      unfolding e by simp
    ultimately show ?thesis using b2 Nil by simp
  next
    case (Cons w rest)
    define d where "d = task_add_held_mutex
                        (upd_mutex (upd_task (upd_mutex s2 m (\<lambda>mx. mx\<lparr>wait_queue := rest\<rparr>))
                             w (\<lambda>tk. tk\<lparr>blocked_on := None\<rparr>))
                           m (\<lambda>mx. mx\<lparr>owner := Some w\<rparr>)) w m"
    have e: "s3 = task_set_state d w TASK_READY"
      using Cons by (simp add: s3_def d_def)
    have wq: "map wait_queue (mutexes s2) ! m = w # rest" using m2 Cons by simp
    have w: "w < length (all_tasks s2)"
      using b(1) m2 Cons by (auto simp: queues_consistent_def)
    have lend: "length (all_tasks d) = length (all_tasks s2)"
      by (simp add: d_def task_add_held_mutex_def)
    have blkd: "map is_blocked (all_tasks d) = map is_blocked (all_tasks s2)"
      by (simp add: d_def task_add_held_mutex_def upd_task_view_at is_blocked_def)
    have blk3: "map is_blocked (all_tasks s3) = (map is_blocked (all_tasks s2))[w := False]"
      unfolding e using w lend by (simp add: is_blocked_task_set_state blkd)
    have bos3: "map blocked_on (all_tasks s3) = (map blocked_on (all_tasks s2))[w := None]"
      unfolding e using w
      by (simp add: task_set_state_view ignores_sched_def d_def task_add_held_mutex_def
                    upd_task_view_at all_tasks_upd_task map_update)
    have wq3: "map wait_queue (mutexes s3) = (map wait_queue (mutexes s2))[m := rest]"
      unfolding e using m2 by (simp add: d_def map_update)
    have o3: "semaphores s3 = semaphores s2" "idle_task s3 = idle_task s2"
      unfolding e by (simp_all add: d_def)
    have "queues_consistent ((map is_blocked (all_tasks s2))[w := False])
            ((map blocked_on (all_tasks s2))[w := None]) ((map wait_queue (mutexes s2))[m := rest])"
      using b(1) _ _ wq
    proof (rule queues_consistent_wake)
      show "length (map blocked_on (all_tasks s2)) = length (map is_blocked (all_tasks s2))"
        by simp
      show "m < length (map wait_queue (mutexes s2))" using m2 by simp
    qed
    then have qc3: "queues_consistent (map is_blocked (all_tasks s3))
                (map blocked_on (all_tasks s3)) (map wait_queue (mutexes s3))"
      by (simp only: wq3 blk3 bos3)
    have idle3: "\<forall>i. idle_task s3 = Some i \<longrightarrow>
          i < length (all_tasks s3) \<and> \<not> is_blocked (all_tasks s3 ! i)"
    proof (intro allI impI)
      fix i assume "idle_task s3 = Some i"
      then have i: "idle_task s2 = Some i" by (simp add: o3)
      with b(2) have iv: "i < length (all_tasks s2)" "\<not> is_blocked (all_tasks s2 ! i)" by auto
      have len: "length (all_tasks s3) = length (all_tasks s2)"
        using blk3 by (metis length_list_update length_map)
      have "map is_blocked (all_tasks s3) ! i = (map is_blocked (all_tasks s2))[w := False] ! i"
        by (simp only: blk3)
      then have "\<not> is_blocked (all_tasks s3 ! i)"
        using iv len w by (simp add: nth_list_update)
      with iv len show "i < length (all_tasks s3) \<and> \<not> is_blocked (all_tasks s3 ! i)"
        by simp
    qed
    have sem3: "\<forall>q \<in> set (map sem_wait_queue (semaphores s3)). q = []"
      using b(3) by (simp only: o3)
    have own3: "map owner (mutexes s3) = (map owner (mutexes s2))[m := Some w]"
      unfolding e using m2 by (simp add: d_def map_update)
    have "blocking_inv s3" using qc3 idle3 sem3 by (rule blocking_invI)
    then show ?thesis using Cons w bos3 own3 by simp
  qed
  then have b3': "blocking_inv s3" by blast
  note p3 = blocking_view_parts [OF blocking_view_schedule [OF i3 b3']]
  have "blocking_inv (scheduler_schedule s3)" using i3 b3' by (rule blocking_inv_schedule)
  then show ?thesis
    unfolding eq using b3 unfolding p3(2) p3(4) p2(2) p2(4) p2(7) wqm by simp
qed

lemma blocking_inv_mutex_unlock:
  assumes "sched_inv s" "blocking_inv s"
  shows "blocking_inv (mutex_unlock s m t)"
proof (cases "m \<ge> length (mutexes s) \<or> t \<ge> length (all_tasks s)
              \<or> owner (mutexes s ! m) \<noteq> Some t")
  case True
  with assms(2) show ?thesis by (auto simp: mutex_unlock_def)
next
  case False
  with mutex_unlock_blocking [OF assms] show ?thesis by blast
qed

lemma blocking_view_upd_sem:
  assumes "i < length (semaphores s) \<Longrightarrow>
           sem_wait_queue (f (semaphores s ! i)) = sem_wait_queue (semaphores s ! i)"
  shows "blocking_view (upd_sem s i f) = blocking_view s"
  using assms
  by (cases "i < length (semaphores s)")
     (simp_all add: blocking_view_def upd_sem_def map_update list_update_same_conv
                    list_update_beyond)

lemma blocking_view_semaphore_wait:
  assumes "blocking_discipline s (SemaphoreWait i t)"
  shows "blocking_view (semaphore_wait s i t) = blocking_view s"
  using assms
  by (auto simp: semaphore_wait_def blocking_discipline_def blocking_view_upd_sem)

lemma blocking_view_semaphore_signal:
  assumes "blocking_inv s"
  shows "blocking_view (semaphore_signal s i) = blocking_view s"
proof (cases "i < length (semaphores s)")
  case True
  then have "sem_wait_queue (semaphores s ! i) \<in> set (map sem_wait_queue (semaphores s))"
    by (metis length_map nth_map nth_mem)
  with blocking_inv_parts(3) [OF assms] have "sem_wait_queue (semaphores s ! i) = []"
    by blast
  then show ?thesis
    by (simp add: semaphore_signal_def blocking_view_upd_sem)
next
  case False
  then show ?thesis by (simp add: semaphore_signal_def)
qed

lemma blocking_view_task_ops:
  "blocking_discipline s (TaskSetState t st) \<Longrightarrow>
     blocking_view (task_set_state s t st) = blocking_view s"
  "blocking_discipline s (TaskSuspend t) \<Longrightarrow> blocking_view (task_suspend s t) = blocking_view s"
  "blocking_view (task_resume s t) = blocking_view s"
  "blocking_discipline s (TaskTerminate t) \<Longrightarrow> blocking_view (task_terminate s t) = blocking_view s"
  by (simp_all add: blocking_discipline_def task_suspend_def task_resume_def
                    task_terminate_def blocking_view_task_set_state task_state_def)

lemma blocking_view_advance_steps:
  assumes "sched_inv s" "blocking_inv s"
  shows "blocking_view (((\<lambda>s'. scheduler_schedule (tick_handler s')) ^^ k) s) = blocking_view s"
proof (induction k)
  case 0
  show ?case by simp
next
  case (Suc k)
  define r where "r = ((\<lambda>s'. scheduler_schedule (tick_handler s')) ^^ k) s"
  have ir: "sched_inv r"
    unfolding r_def using assms(1)
    by (intro funpow_preserves [where P = sched_inv])
       (simp_all add: sched_inv_tick_handler sched_inv_schedule)
  have br: "blocking_inv r"
    using assms(2) Suc unfolding r_def by (rule blocking_inv_transfer)
  have "sched_inv (tick_handler r)" using ir by (rule sched_inv_tick_handler)
  moreover have "blocking_inv (tick_handler r)"
    using br by (rule blocking_inv_transfer) simp
  ultimately have "blocking_view (scheduler_schedule (tick_handler r)) = blocking_view r"
    by (simp add: blocking_view_schedule)
  with Suc show ?case by (simp add: r_def)
qed

lemma blocking_view_advance_time:
  "sched_inv s \<Longrightarrow> blocking_inv s \<Longrightarrow> blocking_view (advance_time s n) = blocking_view s"
  by (simp add: advance_time_def blocking_view_advance_steps)

lemma blocking_view_simulate_loop:
  "sched_inv s \<Longrightarrow> blocking_inv s \<Longrightarrow> blocking_view (simulate_loop k s t) = blocking_view s"
proof (induction k arbitrary: s)
  case 0
  show ?case by simp
next
  case (Suc k)
  have i1: "sched_inv (tick_handler s)" using Suc.prems(1) by (rule sched_inv_tick_handler)
  have b1: "blocking_inv (tick_handler s)"
    using Suc.prems(2) by (rule blocking_inv_transfer) simp
  have "blocking_view (scheduler_schedule (tick_handler s)) = blocking_view s"
    using i1 b1 by (simp add: blocking_view_schedule)
  moreover have "blocking_view (simulate_loop k (tick_handler s) t) = blocking_view s"
    using Suc.IH [OF i1 b1] by simp
  ultimately show ?case by (simp add: Let_def)
qed

lemma blocking_view_simulate_work:
  assumes "sched_inv s" "blocking_inv s"
  shows "blocking_view (simulate_work s t n) = blocking_view s"
proof -
  let ?s1 = "upd_task s t (\<lambda>tk. tk\<lparr>remaining_work := n\<rparr>)"
  have v1: "blocking_view ?s1 = blocking_view s"
    by (simp add: blocking_view_upd_task is_blocked_def)
  have "sched_inv ?s1" using assms(1) by (simp add: sched_inv_upd_task)
  moreover have "blocking_inv ?s1" using assms(2) v1 by (rule blocking_inv_transfer)
  ultimately have "blocking_view (simulate_loop (unat n) ?s1 t) = blocking_view ?s1"
    by (rule blocking_view_simulate_loop)
  with v1 show ?thesis by (simp add: simulate_work_def)
qed

text \<open>
  Under the blocking discipline every call but the five that create a task, a mutex or
  a semaphore or lock or unlock a mutex leaves the blocking view as it is.
\<close>

lemma blocking_view_exec:
  assumes "sched_inv s" "blocking_inv s" "blocking_discipline s c"
  shows "blocking_view (exec qs c s) = blocking_view s \<or>
         (\<exists>p a b w. c = TaskCreate p a b w) \<or> c = MutexCreate \<or>
         (\<exists>m t. c = MutexLock m t) \<or> (\<exists>m t. c = MutexUnlock m t) \<or>
         (\<exists>a b. c = SemaphoreCreate a b)"
  using assms
  by (cases c)
     (simp_all add: blocking_view_task_ops blocking_view_semaphore_wait
        blocking_view_semaphore_signal blocking_view_schedule blocking_view_advance_time
        blocking_view_simulate_work)

lemma blocking_inv_exec:
  assumes si: "sched_inv s" and bi: "blocking_inv s" and d: "blocking_discipline s c"
  shows "blocking_inv (exec qs c s)"
proof -
  from blocking_view_exec [OF assms, of qs]
  consider (view) "blocking_view (exec qs c s) = blocking_view s"
    | (tc) p a b w where "c = TaskCreate p a b w" | (mc) "c = MutexCreate"
    | (ml) m t where "c = MutexLock m t" | (mu) m t where "c = MutexUnlock m t"
    | (sc) a b where "c = SemaphoreCreate a b"
    by blast
  then show ?thesis
  proof cases
    case view
    with bi show ?thesis by (rule blocking_inv_transfer)
  next
    case tc
    with bi show ?thesis by (simp add: blocking_inv_task_create)
  next
    case mc
    with bi show ?thesis by (simp add: blocking_inv_mutex_create)
  next
    case ml
    with si bi d show ?thesis by (simp add: blocking_inv_mutex_lock)
  next
    case mu
    with si bi show ?thesis by (simp add: blocking_inv_mutex_unlock)
  next
    case sc
    with bi show ?thesis by (simp add: blocking_inv_semaphore_create)
  qed
qed

lemma reachable_blocking_inv:
  "reachable_by qs blocking_discipline s \<Longrightarrow> blocking_inv s"
proof (induction rule: reachable_by.induct)
  case (reach_init pol pi)
  show ?case by (rule blocking_inv_init)
next
  case (reach_step s c)
  from reach_step.hyps(1) have "sched_inv s" by (rule reachable_sched_inv)
  then show ?case using reach_step.IH reach_step.hyps(2) by (rule blocking_inv_exec)
qed

lemma owners_unblockedD:
  "owners_unblocked bos owns \<Longrightarrow> m < length owns \<Longrightarrow> owns ! m = Some t \<Longrightarrow>
   t < length bos \<and> bos ! t \<noteq> Some m"
  by (simp add: owners_unblocked_def)

lemma owners_unblockedI:
  "(\<And>m t. m < length owns \<Longrightarrow> owns ! m = Some t \<Longrightarrow> t < length bos \<and> bos ! t \<noteq> Some m)
   \<Longrightarrow> owners_unblocked bos owns"
  by (simp add: owners_unblocked_def)

lemma owners_unblocked_acquire:
  assumes "owners_unblocked bos owns" "t < length bos" "bos ! t = None"
  shows "owners_unblocked bos (owns[m := Some t])"
proof (rule owners_unblockedI)
  fix k u assume k: "k < length (owns[m := Some t])" and o: "owns[m := Some t] ! k = Some u"
  show "u < length bos \<and> bos ! u \<noteq> Some k"
  proof (cases "k = m")
    case True
    with k o have "u = t" by simp
    with assms show ?thesis by simp
  next
    case False
    with k o have "k < length owns" "owns ! k = Some u" by simp_all
    with assms(1) show ?thesis by (rule owners_unblockedD)
  qed
qed

lemma owners_unblocked_block:
  assumes "owners_unblocked bos owns" "m < length owns" "owns ! m \<noteq> Some t"
  shows "owners_unblocked (bos[t := Some m]) owns"
proof (rule owners_unblockedI)
  fix k u assume k: "k < length owns" and o: "owns ! k = Some u"
  from assms(1) k o have d: "u < length bos \<and> bos ! u \<noteq> Some k" by (rule owners_unblockedD)
  show "u < length (bos[t := Some m]) \<and> bos[t := Some m] ! u \<noteq> Some k"
  proof (cases "u = t")
    case True
    with o assms(3) have "k \<noteq> m" by auto
    with True d show ?thesis by simp
  next
    case False
    with d show ?thesis by simp
  qed
qed

lemma owners_unblocked_handoff:
  assumes "owners_unblocked bos owns" "w < length bos"
  shows "owners_unblocked (bos[w := None]) (owns[m := Some w])"
proof (rule owners_unblockedI)
  fix k u assume k: "k < length (owns[m := Some w])" and o: "owns[m := Some w] ! k = Some u"
  show "u < length (bos[w := None]) \<and> bos[w := None] ! u \<noteq> Some k"
  proof (cases "u = w")
    case True
    with assms(2) show ?thesis by simp
  next
    case False
    with k o have "k \<noteq> m" by auto
    with k o have "k < length owns" "owns ! k = Some u" by simp_all
    with assms(1) have "u < length bos \<and> bos ! u \<noteq> Some k" by (rule owners_unblockedD)
    with False show ?thesis by simp
  qed
qed

lemma owners_unblocked_release:
  assumes "owners_unblocked bos owns"
  shows "owners_unblocked bos (owns[m := None])"
proof (rule owners_unblockedI)
  fix k u assume k: "k < length (owns[m := None])" and o: "owns[m := None] ! k = Some u"
  then have "k \<noteq> m" by auto
  with k o have "k < length owns" "owns ! k = Some u" by simp_all
  with assms show "u < length bos \<and> bos ! u \<noteq> Some k" by (rule owners_unblockedD)
qed

lemma owners_unblocked_new_task:
  assumes "owners_unblocked bos owns"
  shows "owners_unblocked (bos @ [None]) owns"
proof (rule owners_unblockedI)
  fix k u assume "k < length owns" "owns ! k = Some u"
  with assms have "u < length bos \<and> bos ! u \<noteq> Some k" by (rule owners_unblockedD)
  then show "u < length (bos @ [None]) \<and> (bos @ [None]) ! u \<noteq> Some k"
    by (simp add: nth_append)
qed

lemma owners_unblocked_new_mutex:
  assumes "owners_unblocked bos owns"
  shows "owners_unblocked bos (owns @ [None])"
proof (rule owners_unblockedI)
  fix k u assume k: "k < length (owns @ [None])" and o: "(owns @ [None]) ! k = Some u"
  then have "k < length owns" by (cases "k = length owns") simp_all
  moreover from this o have "owns ! k = Some u" by (simp add: nth_append)
  ultimately show "u < length bos \<and> bos ! u \<noteq> Some k"
    using assms by (intro owners_unblockedD)
qed

lemma owner_inv_init: "owner_inv (scheduler_init pol pi)"
  by (simp add: scheduler_init_def task_create_def Let_def MAX_ALL_TASKS_def
                ready_queue_insert_def MAX_READY_TASKS_def ready_queue_remove_def
                upd_task_def owner_inv_def owners_unblocked_def)

lemma owner_inv_task_create:
  assumes "owner_inv s"
  shows "owner_inv (task_create s prio per dl w)"
  using assms owners_unblocked_new_task [of "map blocked_on (all_tasks s)" "map owner (mutexes s)"]
  by (simp add: task_create_def Let_def owner_inv_def)

lemma owner_inv_mutex_create: "owner_inv s \<Longrightarrow> owner_inv (mutex_create s)"
  by (simp add: owner_inv_def mutex_create_def owners_unblocked_new_mutex)

lemma owner_inv_semaphore_create: "owner_inv s \<Longrightarrow> owner_inv (semaphore_create s a b)"
  by (simp add: owner_inv_def semaphore_create_def)

lemma owner_inv_mutex_lock:
  assumes si: "sched_inv s" and bi: "blocking_inv s" and oi: "owner_inv s"
    and d: "no_self_lock s (MutexLock m t)"
  shows "owner_inv (mutex_lock s m t)"
proof (cases "m < length (mutexes s) \<and> t < length (all_tasks s)")
  case False
  with oi show ?thesis by (auto simp: mutex_lock_def)
next
  case True
  then have m: "m < length (mutexes s)" and t: "t < length (all_tasks s)" by auto
  from d have bd: "blocking_discipline s (MutexLock m t)"
    and ns: "owner (mutexes s ! m) \<noteq> Some t"
    using m by (simp_all add: no_self_lock_def)
  from bd m t have nb: "\<not> is_blocked (all_tasks s ! t)"
    by (simp add: blocking_discipline_def is_blocked_def task_state_def)
  have bt: "map blocked_on (all_tasks s) ! t = None"
    using blocking_inv_parts(1) [OF bi] t nb by (simp add: queues_consistent_def)
  note e = mutex_lock_blocking [OF si bi bd m t]
  from oi have ou: "owners_unblocked (map blocked_on (all_tasks s)) (map owner (mutexes s))"
    by (simp add: owner_inv_def)
  show ?thesis
  proof (cases "locked (mutexes s ! m)")
    case True
    have "owners_unblocked ((map blocked_on (all_tasks s))[t := Some m]) (map owner (mutexes s))"
      using ou m ns by (intro owners_unblocked_block) simp_all
    with e True show ?thesis by (simp add: owner_inv_def)
  next
    case False
    have "owners_unblocked (map blocked_on (all_tasks s)) ((map owner (mutexes s))[m := Some t])"
      using ou t bt by (intro owners_unblocked_acquire) simp_all
    with e False show ?thesis by (simp add: owner_inv_def)
  qed
qed

lemma owner_inv_mutex_unlock:
  assumes si: "sched_inv s" and bi: "blocking_inv s" and oi: "owner_inv s"
  shows "owner_inv (mutex_unlock s m t)"
proof (cases "m \<ge> length (mutexes s) \<or> t \<ge> length (all_tasks s)
              \<or> owner (mutexes s ! m) \<noteq> Some t")
  case True
  with oi show ?thesis by (auto simp: mutex_unlock_def)
next
  case False
  note e = mutex_unlock_blocking [OF si bi False]
  from oi have ou: "owners_unblocked (map blocked_on (all_tasks s)) (map owner (mutexes s))"
    by (simp add: owner_inv_def)
  show ?thesis
  proof (cases "wait_queue (mutexes s ! m)")
    case Nil
    have "owners_unblocked (map blocked_on (all_tasks s)) ((map owner (mutexes s))[m := None])"
      using ou by (rule owners_unblocked_release)
    with e Nil show ?thesis by (simp add: owner_inv_def)
  next
    case (Cons w rest)
    with e have w: "w < length (all_tasks s)" by simp
    have "owners_unblocked ((map blocked_on (all_tasks s))[w := None])
            ((map owner (mutexes s))[m := Some w])"
      using ou w by (intro owners_unblocked_handoff) simp_all
    with e Cons show ?thesis by (simp add: owner_inv_def)
  qed
qed

lemma no_self_lock_discipline: "no_self_lock s c \<Longrightarrow> blocking_discipline s c"
  by (simp add: no_self_lock_def)

lemma owner_inv_exec:
  assumes si: "sched_inv s" and bi: "blocking_inv s" and oi: "owner_inv s"
    and d: "no_self_lock s c"
  shows "owner_inv (exec qs c s)"
proof -
  from blocking_view_exec [OF si bi no_self_lock_discipline [OF d], of qs]
  consider (view) "blocking_view (exec qs c s) = blocking_view s"
    | (tc) p a b w where "c = TaskCreate p a b w" | (mc) "c = MutexCreate"
    | (ml) m t where "c = MutexLock m t" | (mu) m t where "c = MutexUnlock m t"
    | (sc) a b where "c = SemaphoreCreate a b"
    by blast
  then show ?thesis
  proof cases
    case view
    with oi show ?thesis by (rule owner_inv_transfer)
  next
    case tc
    with oi show ?thesis by (simp add: owner_inv_task_create)
  next
    case mc
    with oi show ?thesis by (simp add: owner_inv_mutex_create)
  next
    case ml
    with si bi oi d show ?thesis by (simp add: owner_inv_mutex_lock)
  next
    case mu
    with si bi oi show ?thesis by (simp add: owner_inv_mutex_unlock)
  next
    case sc
    with oi show ?thesis by (simp add: owner_inv_semaphore_create)
  qed
qed

lemma reachable_by_mono:
  assumes "reachable_by qs ok s" "\<And>s c. ok s c \<Longrightarrow> ok' s c"
  shows "reachable_by qs ok' s"
  using assms(1)
  by (induction rule: reachable_by.induct) (auto intro: reach_init reach_step assms(2))

lemma reachable_owner_inv:
  "reachable_by qs no_self_lock s \<Longrightarrow> owner_inv s"
proof (induction rule: reachable_by.induct)
  case (reach_init pol pi)
  show ?case by (rule owner_inv_init)
next
  case (reach_step s c)
  from reach_step.hyps(1) have si: "sched_inv s" by (rule reachable_sched_inv)
  from reach_step.hyps(1) have "reachable_by qs blocking_discipline s"
    by (rule reachable_by_mono) (rule no_self_lock_discipline)
  then have bi: "blocking_inv s" by (rule reachable_blocking_inv)
  from si bi reach_step.IH reach_step.hyps(2) show ?case by (rule owner_inv_exec)
qed

lemma reachable_admits:
  "reachable_by qs ok s \<Longrightarrow> admits ok qs cs s \<Longrightarrow> reachable_by qs ok (fold (exec qs) cs s)"
  by (induction cs arbitrary: s) (simp_all add: reach_step)

lemma queues_consistent_queued:
  "queues_consistent blk bos wqs \<Longrightarrow> m < length wqs \<Longrightarrow> t \<in> set (wqs ! m) \<Longrightarrow>
   t < length blk \<and> blk ! t \<and> bos ! t = Some m"
  unfolding queues_consistent_def by blast

lemma blocking_inv_queued:
  assumes "blocking_inv s" "m < length (mutexes s)" "t \<in> set (wait_queue (mutexes s ! m))"
  shows "t < length (all_tasks s) \<and> blocked_on (all_tasks s ! t) = Some m"
proof -
  from assms(1) have qc: "queues_consistent (map is_blocked (all_tasks s))
       (map blocked_on (all_tasks s)) (map wait_queue (mutexes s))"
    by (rule blocking_inv_parts)
  have "m < length (map wait_queue (mutexes s))" "t \<in> set (map wait_queue (mutexes s) ! m)"
    using assms(2,3) by simp_all
  with qc have "t < length (map is_blocked (all_tasks s)) \<and> map is_blocked (all_tasks s) ! t \<and>
      map blocked_on (all_tasks s) ! t = Some m"
    by (rule queues_consistent_queued)
  then show ?thesis by auto
qed

lemma blocking_inv_blocked:
  assumes "blocking_inv s" "t < length (all_tasks s)" "state (all_tasks s ! t) = TASK_BLOCKED"
  shows "\<exists>m < length (mutexes s). blocked_on (all_tasks s ! t) = Some m \<and>
           (\<forall>k < length (mutexes s). t \<in> set (wait_queue (mutexes s ! k)) \<longleftrightarrow> k = m) \<and>
           distinct (wait_queue (mutexes s ! m))"
proof -
  from assms(1) have qc: "queues_consistent (map is_blocked (all_tasks s))
       (map blocked_on (all_tasks s)) (map wait_queue (mutexes s))"
    by (rule blocking_inv_parts)
  from assms(2,3) have "map is_blocked (all_tasks s) ! t" by (simp add: is_blocked_def)
  with qc assms(2) obtain m where m: "m < length (mutexes s)"
    "blocked_on (all_tasks s ! t) = Some m" "t \<in> set (wait_queue (mutexes s ! m))"
    by (auto simp: queues_consistent_def)
  have "k = m" if "k < length (mutexes s)" "t \<in> set (wait_queue (mutexes s ! k))" for k
    using blocking_inv_queued [OF assms(1) that] m(2) by simp
  moreover have "distinct (wait_queue (mutexes s ! m))"
    using qc m(1) by (auto simp: queues_consistent_def)
  ultimately show ?thesis using m by blast
qed

lemma blocking_view_schedule_idle:
  assumes "sched_inv s" "\<forall>i. idle_task s = Some i \<longrightarrow> task_state s i \<noteq> TASK_BLOCKED"
  shows "blocking_view (scheduler_schedule s) = blocking_view s"
proof -
  have "\<forall>n. scheduler_get_next_task s = Some n \<longrightarrow> n < length (all_tasks s) \<longrightarrow>
            task_state s n \<noteq> TASK_BLOCKED"
    using assms
    by (auto simp: scheduler_next_def2 sched_inv_def split: list.splits)
  then have "blocking_view (scheduler_context_switch s (current_task s) (scheduler_get_next_task s))
             = blocking_view s"
    by (rule blocking_view_context_switch)
  then show ?thesis
    by (auto simp: scheduler_schedule_def Let_def split: option.splits)
qed

text \<open>
  \<open>semaphore_wait\<close> on a semaphore without tokens, called in a state in which the
  invariant holds: the task ends Blocked without \<open>blocked_on\<close>, in the wait queue of
  the semaphore and of no mutex.
\<close>

lemma semaphore_wait_blocks:
  assumes si: "sched_inv s" and bi: "blocking_inv s"
    and i: "i < length (semaphores s)" and t: "t < length (all_tasks s)"
    and c: "sem_count (semaphores s ! i) \<le> 0"
    and nb: "state (all_tasks s ! t) \<noteq> TASK_BLOCKED" and ni: "idle_task s \<noteq> Some t"
  shows "state (all_tasks (semaphore_wait s i t) ! t) = TASK_BLOCKED \<and>
         blocked_on (all_tasks (semaphore_wait s i t) ! t) = None \<and>
         (\<forall>k < length (mutexes (semaphore_wait s i t)).
             t \<notin> set (wait_queue (mutexes (semaphore_wait s i t) ! k))) \<and>
         sem_wait_queue (semaphores (semaphore_wait s i t) ! i) = [t]"
proof -
  note b = blocking_inv_parts [OF bi]
  define s1 where "s1 = task_set_state s t TASK_BLOCKED"
  define s2 where "s2 = sem_wait_queue_insert s1 i t"
  have eq: "semaphore_wait s i t = scheduler_schedule s2"
    using i t c by (simp add: semaphore_wait_def s1_def s2_def)
  have i2: "sched_inv s2"
    using si by (simp add: s2_def s1_def sched_inv_sem_wait_queue_insert sched_inv_task_set_state)
  have fr: "all_tasks s2 = all_tasks s1" "mutexes s2 = mutexes s" "idle_task s2 = idle_task s"
    "semaphores s1 = semaphores s"
    by (simp_all add: s2_def s1_def sem_wait_queue_insert_def)
  have blk2: "map is_blocked (all_tasks s2) = (map is_blocked (all_tasks s))[t := True]"
    using t by (simp add: fr s1_def is_blocked_task_set_state)
  have bos2: "map blocked_on (all_tasks s2) = map blocked_on (all_tasks s)"
    by (simp add: fr s1_def task_set_state_view ignores_sched_def)
  have len2: "length (all_tasks s2) = length (all_tasks s)"
    by (simp add: fr s1_def)
  have idle2: "\<forall>j. idle_task s2 = Some j \<longrightarrow> task_state s2 j \<noteq> TASK_BLOCKED"
  proof (intro allI impI)
    fix j assume "idle_task s2 = Some j"
    then have j: "idle_task s = Some j" by (simp add: fr)
    with b(2) have jv: "j < length (all_tasks s)" "\<not> is_blocked (all_tasks s ! j)" by auto
    from j ni have "j \<noteq> t" by auto
    have "map is_blocked (all_tasks s2) ! j = (map is_blocked (all_tasks s))[t := True] ! j"
      by (simp only: blk2)
    with jv len2 \<open>j \<noteq> t\<close> have "\<not> is_blocked (all_tasks s2 ! j)" by simp
    then show "task_state s2 j \<noteq> TASK_BLOCKED"
      by (simp add: is_blocked_def task_state_def)
  qed
  note p = blocking_view_parts [OF blocking_view_schedule_idle [OF i2 idle2]]
  have t2: "t < length (all_tasks s2)" using t len2 by simp
  have "map is_blocked (all_tasks s2) ! t" unfolding blk2 using t by simp
  then have "is_blocked (all_tasks s2 ! t)" using t2 by simp
  with view_nth [OF p(1) t2] have st: "state (all_tasks (scheduler_schedule s2) ! t) = TASK_BLOCKED"
    by (simp add: is_blocked_def)
  have "\<not> map is_blocked (all_tasks s) ! t" using nb t by (simp add: is_blocked_def)
  with b(1) t have "map blocked_on (all_tasks s) ! t = None"
    by (simp add: queues_consistent_def)
  then have bt: "blocked_on (all_tasks s ! t) = None" using t by simp
  have "blocked_on (all_tasks s2 ! t) = blocked_on (all_tasks s ! t)"
    using view_nth [OF bos2 t] .
  with view_nth [OF p(2) t2] bt
  have bo: "blocked_on (all_tasks (scheduler_schedule s2) ! t) = None" by simp
  have mq: "mutexes (scheduler_schedule s2) = mutexes s" by (simp add: fr)
  have nq: "t \<notin> set (wait_queue (mutexes s ! k))" if "k < length (mutexes s)" for k
    using blocking_inv_queued [OF bi that, of t] bt by auto
  have "sem_wait_queue (semaphores s ! i) \<in> set (map sem_wait_queue (semaphores s))"
    using i by (metis length_map nth_map nth_mem)
  with b(3) have em: "sem_wait_queue (semaphores s ! i) = []" by blast
  have sq: "sem_wait_queue (semaphores (scheduler_schedule s2) ! i) = [t]"
    using i em
    by (simp add: s2_def sem_wait_queue_insert_def fr SEM_WAIT_QUEUE_CAP_def upd_sem_def)
  have "\<forall>k < length (mutexes (scheduler_schedule s2)).
          t \<notin> set (wait_queue (mutexes (scheduler_schedule s2) ! k))"
    unfolding mq using nq by blast
  with st bo sq show ?thesis unfolding eq by blast
qed

text \<open>
  C5, as the code has it. A task that \<open>semaphore_wait\<close> blocks is put into the wait
  queue of the semaphore and gets no \<open>blocked_on\<close>, which points to mutexes only. In
  every state that a driver reaches from \<open>scheduler_init\<close> while it blocks tasks
  through contended \<open>mutex_lock\<close> only (\<open>blocking_discipline\<close>), every task in state
  Blocked has \<open>blocked_on = Some m\<close> for a mutex \<open>m\<close>, lies in the wait queue of \<open>m\<close>,
  once, and in the wait queue of no other mutex. \<open>semaphore_wait\<close> does not keep
  this: called in such a state on a semaphore without tokens, for a task that is
  neither Blocked nor the idle task, it leaves the task Blocked without \<open>blocked_on\<close>,
  in the wait queue of no mutex, alone in the wait queue of the semaphore.
\<close>

theorem blocked_task_in_one_queue:
  assumes "reachable_by qs blocking_discipline s" "t < length (all_tasks s)"
  shows "(state (all_tasks s ! t) = TASK_BLOCKED \<longrightarrow>
          (\<exists>m < length (mutexes s). blocked_on (all_tasks s ! t) = Some m \<and>
             (\<forall>k < length (mutexes s). t \<in> set (wait_queue (mutexes s ! k)) \<longleftrightarrow> k = m) \<and>
             distinct (wait_queue (mutexes s ! m)))) \<and>
         (i < length (semaphores s) \<and> sem_count (semaphores s ! i) \<le> 0 \<and>
          state (all_tasks s ! t) \<noteq> TASK_BLOCKED \<and> idle_task s \<noteq> Some t \<longrightarrow>
          state (all_tasks (semaphore_wait s i t) ! t) = TASK_BLOCKED \<and>
          blocked_on (all_tasks (semaphore_wait s i t) ! t) = None \<and>
          (\<forall>k < length (mutexes (semaphore_wait s i t)).
              t \<notin> set (wait_queue (mutexes (semaphore_wait s i t) ! k))) \<and>
          sem_wait_queue (semaphores (semaphore_wait s i t) ! i) = [t])"
proof (intro conjI impI)
  assume "state (all_tasks s ! t) = TASK_BLOCKED"
  with reachable_blocking_inv [OF assms(1)] assms(2)
  show "\<exists>m < length (mutexes s). blocked_on (all_tasks s ! t) = Some m \<and>
             (\<forall>k < length (mutexes s). t \<in> set (wait_queue (mutexes s ! k)) \<longleftrightarrow> k = m) \<and>
             distinct (wait_queue (mutexes s ! m))"
    by (rule blocking_inv_blocked)
next
  assume a: "i < length (semaphores s) \<and> sem_count (semaphores s ! i) \<le> 0 \<and>
          state (all_tasks s ! t) \<noteq> TASK_BLOCKED \<and> idle_task s \<noteq> Some t"
  have si: "sched_inv s" using assms(1) by (rule reachable_sched_inv)
  have bi: "blocking_inv s" using assms(1) by (rule reachable_blocking_inv)
  from a have "i < length (semaphores s)" "sem_count (semaphores s ! i) \<le> 0"
    "state (all_tasks s ! t) \<noteq> TASK_BLOCKED" "idle_task s \<noteq> Some t"
    by simp_all
  from semaphore_wait_blocks [OF si bi this(1) assms(2) this(2-4)]
  show "state (all_tasks (semaphore_wait s i t) ! t) = TASK_BLOCKED"
    "blocked_on (all_tasks (semaphore_wait s i t) ! t) = None"
    "\<forall>k < length (mutexes (semaphore_wait s i t)).
              t \<notin> set (wait_queue (mutexes (semaphore_wait s i t) ! k))"
    "sem_wait_queue (semaphores (semaphore_wait s i t) ! i) = [t]"
    by blast+
qed

theorem blocked_task_in_one_queue_witness:
  "reachable_by insort_by blocking_discipline chain_state \<and>
   2 < length (all_tasks chain_state) \<and>
   state (all_tasks chain_state ! 2) = TASK_BLOCKED \<and>
   blocked_on (all_tasks chain_state ! 2) = Some 0 \<and>
   length (mutexes chain_state) = 2 \<and>
   2 \<in> set (wait_queue (mutexes chain_state ! 0)) \<and>
   2 \<notin> set (wait_queue (mutexes chain_state ! 1)) \<and>
   distinct (wait_queue (mutexes chain_state ! 0)) \<and>
   reachable_by insort_by blocking_discipline token_less_state \<and>
   1 < length (all_tasks token_less_state) \<and>
   0 < length (semaphores token_less_state) \<and>
   sem_count (semaphores token_less_state ! 0) \<le> 0 \<and>
   state (all_tasks token_less_state ! 1) = TASK_RUNNING \<and>
   idle_task token_less_state = Some 0 \<and>
   state (all_tasks (semaphore_wait token_less_state 0 1) ! 1) = TASK_BLOCKED \<and>
   blocked_on (all_tasks (semaphore_wait token_less_state 0 1) ! 1) = None \<and>
   sem_wait_queue (semaphores (semaphore_wait token_less_state 0 1) ! 0) = [1]"
proof -
  have "admits blocking_discipline insort_by
     [MutexCreate, MutexCreate, TaskCreate 20 0 0 30, Schedule, MutexLock 0 1,
      TaskCreate 15 0 0 20, Schedule, MutexLock 1 2, MutexLock 0 2]
     (scheduler_init SCHED_PRIORITY True)"
    by code_simp
  with reach_init have r: "reachable_by insort_by blocking_discipline chain_state"
    unfolding chain_state_def by (rule reachable_admits)
  have v: "2 < length (all_tasks chain_state)"
    "state (all_tasks chain_state ! 2) = TASK_BLOCKED"
    "blocked_on (all_tasks chain_state ! 2) = Some 0"
    "length (mutexes chain_state) = 2"
    by code_simp+
  from blocked_task_in_one_queue [OF r v(1), THEN conjunct1, rule_format, OF v(2)] v(3)
  have a: "\<forall>k < length (mutexes chain_state).
             2 \<in> set (wait_queue (mutexes chain_state ! k)) \<longleftrightarrow> k = 0"
    and d: "distinct (wait_queue (mutexes chain_state ! 0))"
    by auto
  from a v(4) have m: "2 \<in> set (wait_queue (mutexes chain_state ! 0))"
    "2 \<notin> set (wait_queue (mutexes chain_state ! 1))"
    by simp_all
  have "admits blocking_discipline insort_by
     [SemaphoreCreate 0 1, TaskCreate 5 0 0 1, Schedule]
     (scheduler_init SCHED_PRIORITY True)"
    by code_simp
  with reach_init have r': "reachable_by insort_by blocking_discipline token_less_state"
    unfolding token_less_state_def by (rule reachable_admits)
  have w: "1 < length (all_tasks token_less_state)"
    "0 < length (semaphores token_less_state) \<and>
     sem_count (semaphores token_less_state ! 0) \<le> 0 \<and>
     state (all_tasks token_less_state ! 1) \<noteq> TASK_BLOCKED \<and>
     idle_task token_less_state \<noteq> Some 1"
    "state (all_tasks token_less_state ! 1) = TASK_RUNNING"
    "idle_task token_less_state = Some 0"
    by code_simp+
  from blocked_task_in_one_queue [OF r' w(1), THEN conjunct2, rule_format, OF w(2)]
  have b: "state (all_tasks (semaphore_wait token_less_state 0 1) ! 1) = TASK_BLOCKED"
    "blocked_on (all_tasks (semaphore_wait token_less_state 0 1) ! 1) = None"
    "sem_wait_queue (semaphores (semaphore_wait token_less_state 0 1) ! 0) = [1]"
    by simp_all
  from r v d m r' w b show ?thesis by simp
qed

text \<open>
  The claim as written covers \<open>semaphore_wait\<close>. Task 1, which waits on a semaphore
  without tokens, is Blocked, has no \<open>blocked_on\<close>, and there is no mutex at all.
\<close>

theorem semaphore_blocked_counterexample:
  "reachable_by insort_by any_call sem_blocked_state \<and>
   1 < length (all_tasks sem_blocked_state) \<and>
   state (all_tasks sem_blocked_state ! 1) = TASK_BLOCKED \<and>
   blocked_on (all_tasks sem_blocked_state ! 1) = None \<and>
   mutexes sem_blocked_state = [] \<and>
   map sem_wait_queue (semaphores sem_blocked_state) = [[1]]"
proof -
  have "reachable_by insort_by any_call sem_blocked_state"
    unfolding sem_blocked_state_def by (rule reachable_fold [OF reach_init])
  moreover have "1 < length (all_tasks sem_blocked_state) \<and>
   state (all_tasks sem_blocked_state ! 1) = TASK_BLOCKED \<and>
   blocked_on (all_tasks sem_blocked_state ! 1) = None \<and>
   mutexes sem_blocked_state = [] \<and>
   map sem_wait_queue (semaphores sem_blocked_state) = [[1]]"
    by code_simp
  ultimately show ?thesis by simp
qed

lemma owner_inv_owner:
  assumes "blocking_inv s" "owner_inv s" "m < length (mutexes s)"
    "owner (mutexes s ! m) = Some t"
  shows "t < length (all_tasks s) \<and> blocked_on (all_tasks s ! t) \<noteq> Some m \<and>
         t \<notin> set (wait_queue (mutexes s ! m))"
proof -
  from assms(2) have "owners_unblocked (map blocked_on (all_tasks s)) (map owner (mutexes s))"
    by (simp add: owner_inv_def)
  moreover have "m < length (map owner (mutexes s))" "map owner (mutexes s) ! m = Some t"
    using assms(3,4) by simp_all
  ultimately have "t < length (map blocked_on (all_tasks s)) \<and>
                   map blocked_on (all_tasks s) ! t \<noteq> Some m"
    by (rule owners_unblockedD)
  then have a: "t < length (all_tasks s)" "blocked_on (all_tasks s ! t) \<noteq> Some m" by auto
  have "t \<notin> set (wait_queue (mutexes s ! m))"
    using blocking_inv_queued [OF assms(1,3), of t] a(2) by blast
  with a show ?thesis by simp
qed

lemma owner_inv_no_self_loop:
  assumes "owner_inv s" "u < length (all_tasks s)"
  shows "blocking_owner s u \<noteq> Some u"
proof
  assume b: "blocking_owner s u = Some u"
  then obtain m where m: "blocked_on (all_tasks s ! u) = Some m" "m < length (mutexes s)"
    "owner (mutexes s ! m) = Some u"
    by (auto simp: blocking_owner_def split: option.splits if_splits)
  from assms(1) have "owners_unblocked (map blocked_on (all_tasks s)) (map owner (mutexes s))"
    by (simp add: owner_inv_def)
  moreover have "m < length (map owner (mutexes s))" "map owner (mutexes s) ! m = Some u"
    using m by simp_all
  ultimately have "u < length (map blocked_on (all_tasks s)) \<and>
                   map blocked_on (all_tasks s) ! u \<noteq> Some m"
    by (rule owners_unblockedD)
  with m(1) assms(2) show False by auto
qed

text \<open>
  C6, as the code has it. \<open>mutex_lock\<close> does not refuse the owner of the mutex: the
  claim needs a driver that never locks a mutex for its owner. In every state that
  such a driver reaches from \<open>scheduler_init\<close> while it blocks tasks through
  contended \<open>mutex_lock\<close> only (\<open>no_self_lock\<close>), the owner of a mutex is a registered
  task that is not blocked on that mutex and not in its wait queue, and no task is
  the owner of the mutex it is blocked on. Longer cycles of \<open>blocked_on\<close> and \<open>owner\<close>
  are not excluded.
\<close>

theorem owner_not_blocked_on_own_mutex:
  assumes "reachable_by qs no_self_lock s"
  shows "(m < length (mutexes s) \<and> owner (mutexes s ! m) = Some t \<longrightarrow>
            t < length (all_tasks s) \<and> blocked_on (all_tasks s ! t) \<noteq> Some m \<and>
            t \<notin> set (wait_queue (mutexes s ! m))) \<and>
         (u < length (all_tasks s) \<longrightarrow> blocking_owner s u \<noteq> Some u)"
proof -
  from assms have "reachable_by qs blocking_discipline s"
    by (rule reachable_by_mono) (rule no_self_lock_discipline)
  then have bi: "blocking_inv s" by (rule reachable_blocking_inv)
  from assms have oi: "owner_inv s" by (rule reachable_owner_inv)
  show ?thesis
    using owner_inv_owner [OF bi oi, of m t] owner_inv_no_self_loop [OF oi, of u] by blast
qed

theorem owner_not_blocked_on_own_mutex_witness:
  "reachable_by insort_by no_self_lock chain_state \<and>
   0 < length (mutexes chain_state) \<and> owner (mutexes chain_state ! 0) = Some 1 \<and>
   1 < length (all_tasks chain_state) \<and>
   blocked_on (all_tasks chain_state ! 1) \<noteq> Some 0 \<and>
   1 \<notin> set (wait_queue (mutexes chain_state ! 0)) \<and>
   2 < length (all_tasks chain_state) \<and>
   blocking_owner chain_state 2 = Some 1 \<and>
   blocking_owner chain_state 2 \<noteq> Some 2"
proof -
  have "admits no_self_lock insort_by
     [MutexCreate, MutexCreate, TaskCreate 20 0 0 30, Schedule, MutexLock 0 1,
      TaskCreate 15 0 0 20, Schedule, MutexLock 1 2, MutexLock 0 2]
     (scheduler_init SCHED_PRIORITY True)"
    by code_simp
  with reach_init have r: "reachable_by insort_by no_self_lock chain_state"
    unfolding chain_state_def by (rule reachable_admits)
  have v: "0 < length (mutexes chain_state)" "owner (mutexes chain_state ! 0) = Some 1"
    "2 < length (all_tasks chain_state)" "blocking_owner chain_state 2 = Some 1"
    by code_simp+
  note th = owner_not_blocked_on_own_mutex [OF r, of 0 1 2]
  from th v(1,2) have "1 < length (all_tasks chain_state) \<and>
      blocked_on (all_tasks chain_state ! 1) \<noteq> Some 0 \<and>
      1 \<notin> set (wait_queue (mutexes chain_state ! 0))"
    by blast
  moreover from th v(3) have "blocking_owner chain_state 2 \<noteq> Some 2" by blast
  ultimately show ?thesis using r v by simp
qed

text \<open>
  The claim as written covers every sequence of calls, and concludes that the chain
  is acyclic. Task 1 locks mutex 0 twice: it is the owner of mutex 0, Blocked on it
  and in its wait queue. And without any task locking a mutex that it owns, task 1
  (owner of mutex 0) blocks on mutex 1 and task 2 (owner of mutex 1) on mutex 0: the
  chain leads from task 1 to task 2 and back.
\<close>

theorem owner_blocked_counterexample:
  "reachable_by insort_by any_call self_locked_state \<and>
   owner (mutexes self_locked_state ! 0) = Some 1 \<and>
   state (all_tasks self_locked_state ! 1) = TASK_BLOCKED \<and>
   blocked_on (all_tasks self_locked_state ! 1) = Some 0 \<and>
   1 \<in> set (wait_queue (mutexes self_locked_state ! 0)) \<and>
   reachable_by insort_by no_self_lock deadlock_state \<and>
   blocking_owner deadlock_state 1 = Some 2 \<and>
   blocking_owner deadlock_state 2 = Some 1"
proof -
  have a: "reachable_by insort_by any_call self_locked_state"
    unfolding self_locked_state_def by (rule reachable_fold [OF reach_init])
  have "admits no_self_lock insort_by
     [MutexCreate, MutexCreate, TaskCreate 20 0 0 30, Schedule, MutexLock 0 1,
      TaskCreate 15 0 0 20, Schedule, MutexLock 1 2, MutexLock 0 2]
     (scheduler_init SCHED_PRIORITY True)"
    by code_simp
  with reach_init have "reachable_by insort_by no_self_lock chain_state"
    unfolding chain_state_def by (rule reachable_admits)
  moreover have "no_self_lock chain_state (MutexLock 1 1)" by code_simp
  ultimately have b: "reachable_by insort_by no_self_lock deadlock_state"
    unfolding deadlock_state_def by (rule reach_step)
  have "owner (mutexes self_locked_state ! 0) = Some 1 \<and>
   state (all_tasks self_locked_state ! 1) = TASK_BLOCKED \<and>
   blocked_on (all_tasks self_locked_state ! 1) = Some 0 \<and>
   1 \<in> set (wait_queue (mutexes self_locked_state ! 0))"
    by code_simp
  moreover have "blocking_owner deadlock_state 1 = Some 2 \<and>
   blocking_owner deadlock_state 2 = Some 1"
    by code_simp
  ultimately show ?thesis using a b by simp
qed

section \<open>The waiter that an unlock wakes (C3)\<close>

text \<open>
  C3. \<open>mutex_unlock\<close> hands the mutex to the head of the wait queue, which
  \<open>wait_queue_insert\<close> orders by the priorities the waiters have when they are
  inserted. \<open>priority_inherit\<close> re-sorts the ready queue after a boost, but not the
  wait queue that a boosted Blocked task stands in, so the head need not be the
  waiter of highest priority. In \<open>stale_queue_state\<close> the running task 1 owns mutex
  0, whose wait queue is \<open>[3, 2]\<close>; task 3 has priority 10 and task 2, boosted while
  it waits, priority 1. \<open>mutex_unlock\<close> of mutex 0 by task 1 makes task 3 the owner
  and dispatches it; task 2 stays Blocked in the queue.
\<close>

theorem mutex_unlock_wakes_stale_head:
  "reachable_by insort_by no_self_lock stale_queue_state \<and>
   current_task stale_queue_state = Some 1 \<and>
   owner (mutexes stale_queue_state ! 0) = Some 1 \<and>
   wait_queue (mutexes stale_queue_state ! 0) = [3, 2] \<and>
   task_priority stale_queue_state 3 = 10 \<and>
   task_priority stale_queue_state 2 = 1 \<and>
   owner (mutexes (mutex_unlock stale_queue_state 0 1) ! 0) = Some 3 \<and>
   wait_queue (mutexes (mutex_unlock stale_queue_state 0 1) ! 0) = [2] \<and>
   task_state (mutex_unlock stale_queue_state 0 1) 3 = TASK_RUNNING \<and>
   task_state (mutex_unlock stale_queue_state 0 1) 2 = TASK_BLOCKED \<and>
   task_priority (mutex_unlock stale_queue_state 0 1) 2 = 1"
proof -
  have "admits no_self_lock insort_by
     [MutexCreate, MutexCreate, TaskCreate 20 0 0 30, Schedule, MutexLock 0 1,
      TaskCreate 12 0 0 20, Schedule, MutexLock 1 2, MutexLock 0 2,
      TaskCreate 10 0 0 10, Schedule, MutexLock 0 3,
      TaskCreate 1 0 0 5, Schedule, MutexLock 1 4]
     (scheduler_init SCHED_PRIORITY True)"
    by code_simp
  with reach_init have "reachable_by insort_by no_self_lock stale_queue_state"
    unfolding stale_queue_state_def by (rule reachable_admits)
  moreover have "current_task stale_queue_state = Some 1 \<and>
   owner (mutexes stale_queue_state ! 0) = Some 1 \<and>
   wait_queue (mutexes stale_queue_state ! 0) = [3, 2] \<and>
   task_priority stale_queue_state 3 = 10 \<and>
   task_priority stale_queue_state 2 = 1"
    by code_simp
  moreover have "owner (mutexes (mutex_unlock stale_queue_state 0 1) ! 0) = Some 3 \<and>
   wait_queue (mutexes (mutex_unlock stale_queue_state 0 1) ! 0) = [2] \<and>
   task_state (mutex_unlock stale_queue_state 0 1) 3 = TASK_RUNNING \<and>
   task_state (mutex_unlock stale_queue_state 0 1) 2 = TASK_BLOCKED \<and>
   task_priority (mutex_unlock stale_queue_state 0 1) 2 = 1"
    by code_simp
  ultimately show ?thesis by simp
qed

end
